theory Spec2Isabelle
  imports Main "HOL-Library.Sublist" "HOL-Library.AList"
begin

section \<open>Data model of the explore-navigation tool\<close>

text \<open>
  The tool \<^verbatim>\<open>exploreNavigation\<close> drives a Playwright page and returns
  \<^verbatim>\<open>{ url, totalLinksFound, sections, errors }\<close>.  A \<^verbatim>\<open>LinkInfo\<close> is
  \<^verbatim>\<open>{ url, text }\<close>, a \<^verbatim>\<open>Section\<close> is \<^verbatim>\<open>{ label, links }\<close>.  The field
  \<^verbatim>\<open>text\<close> is written \<open>text'\<close> here, the report's \<^verbatim>\<open>url\<close> is \<open>pageUrl\<close>.
  Line numbers are those of the tool's source file.  The number \<^verbatim>\<open>maxLinks\<close> and
  the counter \<^verbatim>\<open>totalLinksFound\<close> are integers.
\<close>

record LinkInfo =
  url :: string
  text' :: string

record Section =
  label :: string
  links :: "LinkInfo list"

text \<open>
  The four variables \<^verbatim>\<open>url\<close>, \<^verbatim>\<open>totalLinksFound\<close>, \<^verbatim>\<open>sections\<close>,
  \<^verbatim>\<open>errors\<close> of \<^verbatim>\<open>execute\<close>; the object the tool returns is made of exactly
  these, so one record serves as the state of a run and as its report.
\<close>

record Report =
  pageUrl :: string
  totalLinksFound :: int
  sections :: "Section list"
  errors :: "string list"

text \<open>
  A JavaScript \<^verbatim>\<open>Map<string, LinkInfo>\<close> iterates in insertion order, so it is an
  association list to which a new key is appended at the end.  The code only ever calls
  \<^verbatim>\<open>set\<close> behind a \<^verbatim>\<open>has\<close> test.
\<close>

type_synonym LinkMap = "(string \<times> LinkInfo) list"

definition has :: "LinkMap \<Rightarrow> string \<Rightarrow> bool" where
  "has m k = (k \<in> set (map fst m))"

definition values_of :: "LinkMap \<Rightarrow> LinkInfo list" where
  "values_of m = map snd m"

text \<open>
  \<^verbatim>\<open>xs.slice(0, n)\<close> for an integer \<open>n\<close>: a negative end counts from the end of
  the array, and both bounds are clamped to the array.
\<close>

definition slice0 :: "int \<Rightarrow> 'a list \<Rightarrow> 'a list" where
  "slice0 n xs = (if n < 0 then take (nat (int (length xs) + n)) xs else take (nat n) xs)"

section \<open>Link collection\<close>

text \<open>
  The test of lines 33, 140 and 274:
  \<^verbatim>\<open>href.startsWith("javascript:") || href.startsWith("mailto:") ||
  href.startsWith("tel:") || href === "#"\<close>.
\<close>

definition skipped :: "string \<Rightarrow> bool" where
  "skipped href =
     (prefix ''javascript:'' href \<or> prefix ''mailto:'' href \<or> prefix ''tel:'' href \<or> href = ''#'')"

text \<open>
  The loop body of \<^verbatim>\<open>collectLinks\<close> (lines 32--42), which the primary navigation
  scan repeats verbatim (lines 139--147).  \<open>R href base\<close> stands for
  \<^verbatim>\<open>new URL(href, base).href\<close>, a platform function: \<open>None\<close> when the constructor
  throws, which the inner \<^verbatim>\<open>catch\<close> swallows.
\<close>

fun addRaw :: "(string \<Rightarrow> string \<Rightarrow> string option) \<Rightarrow> string \<Rightarrow> (string \<times> string) list
    \<Rightarrow> LinkMap \<Rightarrow> LinkMap" where
  "addRaw R base [] m = m"
| "addRaw R base ((href, txt) # raw) m =
     (if skipped href then addRaw R base raw m
      else (case R href base of
              None \<Rightarrow> addRaw R base raw m
            | Some resolved \<Rightarrow>
                (if \<not> has m resolved
                 then addRaw R base raw (m @ [(resolved, \<lparr>url = resolved, text' = take 120 txt\<rparr>)])
                 else addRaw R base raw m)))"

text \<open>
  The footer scan's loop body (lines 273--281) differs in one test: a resolved URL that
  \<^verbatim>\<open>primaryNavLinks\<close> holds is not stored either.
\<close>

fun addRawFooter :: "(string \<Rightarrow> string \<Rightarrow> string option) \<Rightarrow> string \<Rightarrow> LinkMap
    \<Rightarrow> (string \<times> string) list \<Rightarrow> LinkMap \<Rightarrow> LinkMap" where
  "addRawFooter R base primaryNavLinks [] m = m"
| "addRawFooter R base primaryNavLinks ((href, txt) # raw) m =
     (if skipped href then addRawFooter R base primaryNavLinks raw m
      else (case R href base of
              None \<Rightarrow> addRawFooter R base primaryNavLinks raw m
            | Some resolved \<Rightarrow>
                (if \<not> has m resolved \<and> \<not> has primaryNavLinks resolved
                 then addRawFooter R base primaryNavLinks raw
                        (m @ [(resolved, \<lparr>url = resolved, text' = take 120 txt\<rparr>)])
                 else addRawFooter R base primaryNavLinks raw m)))"

section \<open>Snapshot difference\<close>

text \<open>
  \<^verbatim>\<open>diffLinks\<close> (lines 49--57): the loop over \<^verbatim>\<open>after\<close> with the array
  \<^verbatim>\<open>newLinks\<close> as accumulator.  The parameter \<^verbatim>\<open>before\<close> is written
  \<open>beforeMap\<close>.
\<close>

fun diffLoop :: "LinkMap \<Rightarrow> LinkMap \<Rightarrow> LinkInfo list \<Rightarrow> LinkInfo list" where
  "diffLoop beforeMap [] newLinks = newLinks"
| "diffLoop beforeMap ((u, info) # after) newLinks =
     (if \<not> has beforeMap u then diffLoop beforeMap after (newLinks @ [info])
      else diffLoop beforeMap after newLinks)"

definition diffLinks :: "LinkMap \<Rightarrow> LinkMap \<Rightarrow> LinkInfo list" where
  "diffLinks beforeMap after = diffLoop beforeMap after []"

text \<open>
  The specification's wording of the difference: the links of \<open>after\<close> whose key is
  absent from \<open>beforeMap\<close>, in the order of \<open>after\<close>.
\<close>

definition diff_spec :: "LinkMap \<Rightarrow> LinkMap \<Rightarrow> LinkInfo list" where
  "diff_spec beforeMap after = map snd (filter (\<lambda>kv. fst kv \<notin> fst ` set beforeMap) after)"

section \<open>The page as the code sees it\<close>

text \<open>
  Every \<^verbatim>\<open>await\<close> on the Playwright page either yields a value or throws, and may
  change the page either way.  An operation is therefore a function from the page state to
  a result (\<open>Inl\<close> the thrown error's message, which is all the code reads of it) and the
  next page state.  The record lists the calls the tool makes:
  \<^item> \<open>getPage\<close>: the outcome of \<^verbatim>\<open>await getPage()\<close> of the session module;
  \<^item> \<open>goto u\<close>: \<^verbatim>\<open>page.goto(u, ...)\<close>, yielding the response's HTTP status;
  \<^item> \<open>waitForTimeout ms\<close>;
  \<^item> \<open>evaluateAnchors sel\<close>: the \<^verbatim>\<open>page.evaluate\<close> callbacks of lines 23--29,
    131--137 and 265--271, which run inside the browser and return the
    \<^verbatim>\<open>{href, text}\<close> pairs of the elements \<open>sel\<close> matches;
  \<^item> \<open>locCount sel\<close>: \<^verbatim>\<open>page.locator(sel).count()\<close>;
  \<^item> \<open>nthTextContent sel i t\<close>, \<open>nthHover sel i t\<close>: \<^verbatim>\<open>textContent\<close> and
    \<^verbatim>\<open>hover\<close> of \<^verbatim>\<open>page.locator(sel).nth(i)\<close> with timeout \<open>t\<close>;
  \<^item> \<open>firstIsVisible sel t\<close>, \<open>firstClick sel t\<close>: \<^verbatim>\<open>isVisible\<close> and
    \<^verbatim>\<open>click\<close> of \<^verbatim>\<open>page.locator(sel).first()\<close>;
  \<^item> \<open>scrollToBottom\<close>: the \<^verbatim>\<open>page.evaluate\<close> of line 257;
  \<^item> \<open>closePage\<close>: \<^verbatim>\<open>page.close()\<close>;
  \<^item> \<open>resolveURL href base\<close>: \<^verbatim>\<open>new URL(href, base).href\<close>, \<open>None\<close> when it throws.
  Writes to the console are left out.
\<close>

record 'p page_api =
  getPage :: "string + 'p"
  goto :: "string \<Rightarrow> 'p \<Rightarrow> (string + nat) \<times> 'p"
  waitForTimeout :: "nat \<Rightarrow> 'p \<Rightarrow> (string + unit) \<times> 'p"
  evaluateAnchors :: "string \<Rightarrow> 'p \<Rightarrow> (string + (string \<times> string) list) \<times> 'p"
  locCount :: "string \<Rightarrow> 'p \<Rightarrow> (string + nat) \<times> 'p"
  nthTextContent :: "string \<Rightarrow> nat \<Rightarrow> nat \<Rightarrow> 'p \<Rightarrow> (string + string option) \<times> 'p"
  nthHover :: "string \<Rightarrow> nat \<Rightarrow> nat \<Rightarrow> 'p \<Rightarrow> (string + unit) \<times> 'p"
  firstIsVisible :: "string \<Rightarrow> nat \<Rightarrow> 'p \<Rightarrow> (string + bool) \<times> 'p"
  firstClick :: "string \<Rightarrow> nat \<Rightarrow> 'p \<Rightarrow> (string + unit) \<times> 'p"
  scrollToBottom :: "'p \<Rightarrow> (string + unit) \<times> 'p"
  closePage :: "'p \<Rightarrow> (string + unit) \<times> 'p"
  resolveURL :: "string \<Rightarrow> string \<Rightarrow> string option"

text \<open>\<^verbatim>\<open>collectLinks\<close> (lines 22--44): only the \<^verbatim>\<open>page.evaluate\<close> can throw.\<close>

definition collectLinks :: "'p page_api \<Rightarrow> string \<Rightarrow> 'p \<Rightarrow> (string + LinkMap) \<times> 'p" where
  \<open>collectLinks B baseUrl p =
     (case evaluateAnchors B ''a[href]'' p of
        (Inl e, p') \<Rightarrow> (Inl e, p')
      | (Inr raw, p') \<Rightarrow> (Inr (addRaw (resolveURL B) baseUrl raw []), p'))\<close>

section \<open>Cookie banners\<close>

definition cookieSelectors :: "string list" where
  \<open>cookieSelectors =
     [''button:has-text("Accept")'',
      ''button:has-text("Accept All")'',
      ''button:has-text("Accept all")'',
      ''button:has-text("Got it")'',
      ''button:has-text("I agree")'',
      ''button:has-text("OK")'',
      ''[id*="cookie"] button'',
      ''[class*="cookie"] button'',
      ''[id*="consent"] button'',
      ''[class*="consent"] button'']\<close>

text \<open>
  \<^verbatim>\<open>dismissCookieBanners\<close> (lines 62--88): the selectors in order; whatever throws
  for one selector is swallowed and the next is tried; after one click and its wait have
  both gone through the function returns.
\<close>

fun dismissLoop :: "'p page_api \<Rightarrow> string list \<Rightarrow> 'p \<Rightarrow> 'p" where
  "dismissLoop B [] p = p"
| "dismissLoop B (sel # sels) p =
     (case firstIsVisible B sel 500 p of
        (Inl e, p1) \<Rightarrow> dismissLoop B sels p1
      | (Inr False, p1) \<Rightarrow> dismissLoop B sels p1
      | (Inr True, p1) \<Rightarrow>
          (case firstClick B sel 1000 p1 of
             (Inl e, p2) \<Rightarrow> dismissLoop B sels p2
           | (Inr u, p2) \<Rightarrow>
               (case waitForTimeout B 500 p2 of
                  (Inl e, p3) \<Rightarrow> dismissLoop B sels p3
                | (Inr u', p3) \<Rightarrow> p3)))"

definition dismissCookieBanners :: "'p page_api \<Rightarrow> 'p \<Rightarrow> 'p" where
  "dismissCookieBanners B p = dismissLoop B cookieSelectors p"

section \<open>The phases of a run\<close>

text \<open>
  The two statements \<^verbatim>\<open>sections.push({ label, links }); totalLinksFound +=
  links.length;\<close>, which close each of the four emitting blocks (lines 153--154, 192--193,
  238--239, 288--289).
\<close>

definition pushSection :: "string \<Rightarrow> LinkInfo list \<Rightarrow> Report \<Rightarrow> Report" where
  "pushSection lbl ls st =
     st\<lparr>sections := sections st @ [\<lparr>label = lbl, links = ls\<rparr>],
        totalLinksFound := totalLinksFound st + int (length ls)\<rparr>"

subsection \<open>Primary navigation\<close>

definition navSelectors :: "string list" where
  \<open>navSelectors =
     [''nav a'',
      ''[role="navigation"] a'',
      ''header a'',
      ''header ul a'',
      ''.navbar a'',
      ''.nav a'',
      ''[class*="nav"] a'']\<close>

text \<open>Lines 128--149: a selector whose \<^verbatim>\<open>page.evaluate\<close> throws adds nothing.\<close>

fun primaryNavScan :: "'p page_api \<Rightarrow> string \<Rightarrow> string list \<Rightarrow> LinkMap \<Rightarrow> 'p \<Rightarrow> LinkMap \<times> 'p" where
  "primaryNavScan B u [] primaryNavLinks p = (primaryNavLinks, p)"
| "primaryNavScan B u (sel # sels) primaryNavLinks p =
     (case evaluateAnchors B sel p of
        (Inl e, p') \<Rightarrow> primaryNavScan B u sels primaryNavLinks p'
      | (Inr raw, p') \<Rightarrow> primaryNavScan B u sels (addRaw (resolveURL B) u raw primaryNavLinks) p')"

text \<open>Lines 151--155.\<close>

definition primaryNavEmit :: "int \<Rightarrow> LinkMap \<Rightarrow> Report \<Rightarrow> Report" where
  "primaryNavEmit maxLinks primaryNavLinks st =
     (if length primaryNavLinks > 0
      then pushSection ''Primary Nav'' (slice0 maxLinks (values_of primaryNavLinks)) st
      else st)"

subsection \<open>Hover exploration\<close>

definition hoverTargetSelectors :: "string list" where
  \<open>hoverTargetSelectors =
     [''nav > ul > li'',
      ''nav > div > ul > li'',
      ''[role="navigation"] > ul > li'',
      ''header nav li'',
      ''.navbar li:has(ul), .navbar li:has([class*="dropdown"])'',
      ''[class*="nav"] > ul > li'',
      ''nav button'',
      ''header button'']\<close>

text \<open>
  The label of a hovered item (line 180):
  \<^verbatim>\<open>(await item.textContent(...))?.trim().replace(/\s+/g, " ").slice(0, 50) || `Item ${i}`\<close>.
  Of the characters \<^verbatim>\<open>\s\<close> matches, the type \<open>char\<close> has the ASCII ones.
\<close>

definition isSpace :: "char \<Rightarrow> bool" where
  "isSpace c = (c \<in> {CHR '' '', CHR 0x09, CHR 0x0A, CHR 0x0B, CHR 0x0C, CHR 0x0D})"

definition trim :: "string \<Rightarrow> string" where
  "trim s = rev (dropWhile isSpace (rev (dropWhile isSpace s)))"

function collapseSpaces :: "string \<Rightarrow> string" where
  "collapseSpaces [] = []"
| "collapseSpaces (c # cs) =
     (if isSpace c then CHR '' '' # collapseSpaces (dropWhile isSpace cs)
      else c # collapseSpaces cs)"
  by pat_completeness auto
termination
  by (relation "measure length") (auto simp: length_dropWhile_le less_Suc_eq_le)

fun showNat :: "nat \<Rightarrow> string" where
  "showNat n =
     (if n < 10 then [char_of (48 + n)] else showNat (n div 10) @ [char_of (48 + n mod 10)])"

definition itemLabel :: "string option \<Rightarrow> nat \<Rightarrow> string" where
  "itemLabel tc i =
     (case tc of
        None \<Rightarrow> ''Item '' @ showNat i
      | Some s \<Rightarrow>
          (let t = take 50 (collapseSpaces (trim s))
           in if t = [] then ''Item '' @ showNat i else t))"

text \<open>
  The \<^verbatim>\<open>try\<close> block of one hovered item (lines 178--197); every throw inside it
  ends the block and leaves the run's variables as they are.
\<close>

definition hoverItem :: "'p page_api \<Rightarrow> string \<Rightarrow> int \<Rightarrow> string \<Rightarrow> nat \<Rightarrow> Report \<Rightarrow> 'p \<Rightarrow> Report \<times> 'p" where
  "hoverItem B u maxLinks sel i st p =
     (case nthTextContent B sel i 1000 p of
        (Inl e, p1) \<Rightarrow> (st, p1)
      | (Inr tc, p1) \<Rightarrow>
     (case collectLinks B u p1 of
        (Inl e, p2) \<Rightarrow> (st, p2)
      | (Inr beforeHover, p2) \<Rightarrow>
     (case nthHover B sel i 2000 p2 of
        (Inl e, p3) \<Rightarrow> (st, p3)
      | (Inr u1, p3) \<Rightarrow>
     (case waitForTimeout B 800 p3 of
        (Inl e, p4) \<Rightarrow> (st, p4)
      | (Inr u2, p4) \<Rightarrow>
     (case collectLinks B u p4 of
        (Inl e, p5) \<Rightarrow> (st, p5)
      | (Inr afterHover, p5) \<Rightarrow>
          (let revealed = diffLinks beforeHover afterHover
           in if length revealed > 0
              then (pushSection (''Dropdown: '' @ itemLabel tc i)
                      (slice0 (maxLinks - totalLinksFound st) revealed) st, p5)
              else (st, p5)))))))"

text \<open>The loop over \<^verbatim>\<open>i\<close> (lines 175--198), run on the indices \<open>[0..<min count 15]\<close>.\<close>

fun hoverItems :: "'p page_api \<Rightarrow> string \<Rightarrow> int \<Rightarrow> string \<Rightarrow> nat list \<Rightarrow> Report \<Rightarrow> 'p \<Rightarrow> Report \<times> 'p" where
  "hoverItems B u maxLinks sel [] st p = (st, p)"
| "hoverItems B u maxLinks sel (i # is) st p =
     (if totalLinksFound st \<ge> maxLinks then (st, p)
      else (case hoverItem B u maxLinks sel i st p of
              (st', p') \<Rightarrow> hoverItems B u maxLinks sel is st' p'))"

text \<open>
  The loop over the hover selectors (lines 169--203).  A \<^verbatim>\<open>count\<close> that throws is
  caught and falls through to the test of line 202; \<^verbatim>\<open>continue\<close> on a count of zero
  jumps over that test.
\<close>

fun hoverScopes :: "'p page_api \<Rightarrow> string \<Rightarrow> int \<Rightarrow> string list \<Rightarrow> Report \<Rightarrow> 'p \<Rightarrow> Report \<times> 'p" where
  "hoverScopes B u maxLinks [] st p = (st, p)"
| "hoverScopes B u maxLinks (sel # sels) st p =
     (case locCount B sel p of
        (Inl e, p1) \<Rightarrow>
          (if totalLinksFound st \<ge> maxLinks then (st, p1)
           else hoverScopes B u maxLinks sels st p1)
      | (Inr count, p1) \<Rightarrow>
          (if count = 0 then hoverScopes B u maxLinks sels st p1
           else (case hoverItems B u maxLinks sel [0..<min count 15] st p1 of
                   (st2, p2) \<Rightarrow>
                     (if totalLinksFound st2 \<ge> maxLinks then (st2, p2)
                      else hoverScopes B u maxLinks sels st2 p2))))"

subsection \<open>Hamburger menu\<close>

definition hamburgerSelectors :: "string list" where
  \<open>hamburgerSelectors =
     [''button[aria-label*="menu" i]'',
      ''button[aria-label*="Menu" i]'',
      ''button[aria-label*="navigation" i]'',
      ''[class*="hamburger"]'',
      ''[class*="menu-toggle"]'',
      ''[class*="mobile-menu"]'',
      ''[class*="nav-toggle"]'',
      ''button:has(.hamburger)'',
      ''button[class*="burger"]'',
      ''[aria-controls*="nav"]'',
      ''[aria-controls*="menu"]'']\<close>

text \<open>Lines 243--246: the second click, whose failure (and that of its wait) is ignored.\<close>

definition closeMenu :: "'p page_api \<Rightarrow> string \<Rightarrow> 'p \<Rightarrow> 'p" where
  "closeMenu B sel p =
     (case firstClick B sel 1000 p of
        (Inl e, p1) \<Rightarrow> p1
      | (Inr u1, p1) \<Rightarrow> snd (waitForTimeout B 500 p1))"

text \<open>
  Lines 220--252.  The \<^verbatim>\<open>break\<close> of line 248 is reached only when nothing in the
  \<^verbatim>\<open>try\<close> block has thrown; a throw anywhere in the block goes to the
  \<^verbatim>\<open>catch\<close>, and the loop goes on with the next selector.
\<close>

fun hamburgerLoop :: "'p page_api \<Rightarrow> string \<Rightarrow> int \<Rightarrow> string list \<Rightarrow> Report \<Rightarrow> 'p \<Rightarrow> Report \<times> 'p" where
  "hamburgerLoop B u maxLinks [] st p = (st, p)"
| "hamburgerLoop B u maxLinks (sel # sels) st p =
     (if totalLinksFound st \<ge> maxLinks then (st, p)
      else
     (case firstIsVisible B sel 1000 p of
        (Inl e, p1) \<Rightarrow> hamburgerLoop B u maxLinks sels st p1
      | (Inr False, p1) \<Rightarrow> hamburgerLoop B u maxLinks sels st p1
      | (Inr True, p1) \<Rightarrow>
     (case collectLinks B u p1 of
        (Inl e, p2) \<Rightarrow> hamburgerLoop B u maxLinks sels st p2
      | (Inr beforeClick, p2) \<Rightarrow>
     (case firstClick B sel 3000 p2 of
        (Inl e, p3) \<Rightarrow> hamburgerLoop B u maxLinks sels st p3
      | (Inr u1, p3) \<Rightarrow>
     (case waitForTimeout B 1500 p3 of
        (Inl e, p4) \<Rightarrow> hamburgerLoop B u maxLinks sels st p4
      | (Inr u2, p4) \<Rightarrow>
     (case collectLinks B u p4 of
        (Inl e, p5) \<Rightarrow> hamburgerLoop B u maxLinks sels st p5
      | (Inr afterClick, p5) \<Rightarrow>
          (let revealed = diffLinks beforeClick afterClick;
               st' = (if length revealed > 0
                      then pushSection ''Mobile/Hamburger Menu''
                             (slice0 (maxLinks - totalLinksFound st) revealed) st
                      else st)
           in (st', closeMenu B sel p5))))))))"

subsection \<open>Footer\<close>

definition footerSelectors :: "string list" where
  \<open>footerSelectors = [''footer a'', ''[role="contentinfo"] a'', ''[class*="footer"] a'']\<close>

text \<open>Lines 260--283.\<close>

fun footerScan :: "'p page_api \<Rightarrow> string \<Rightarrow> LinkMap \<Rightarrow> string list \<Rightarrow> LinkMap \<Rightarrow> 'p \<Rightarrow> LinkMap \<times> 'p" where
  "footerScan B u primaryNavLinks [] footerLinks p = (footerLinks, p)"
| "footerScan B u primaryNavLinks (sel # sels) footerLinks p =
     (case evaluateAnchors B sel p of
        (Inl e, p') \<Rightarrow> footerScan B u primaryNavLinks sels footerLinks p'
      | (Inr raw, p') \<Rightarrow>
          footerScan B u primaryNavLinks sels
            (addRawFooter (resolveURL B) u primaryNavLinks raw footerLinks) p')"

text \<open>
  Lines 255--294.  Inside the \<^verbatim>\<open>try\<close> only the scroll and the wait can reach the
  \<^verbatim>\<open>catch\<close>, which records \<^verbatim>\<open>Footer scroll failed: ...\<close>.
\<close>

definition footerPhase :: "'p page_api \<Rightarrow> string \<Rightarrow> int \<Rightarrow> LinkMap \<Rightarrow> Report \<Rightarrow> 'p \<Rightarrow> Report \<times> 'p" where
  "footerPhase B u maxLinks primaryNavLinks st p =
     (if totalLinksFound st < maxLinks then
        (case scrollToBottom B p of
           (Inl e, p1) \<Rightarrow> (st\<lparr>errors := errors st @ [''Footer scroll failed: '' @ e]\<rparr>, p1)
         | (Inr u1, p1) \<Rightarrow>
        (case waitForTimeout B 1500 p1 of
           (Inl e, p2) \<Rightarrow> (st\<lparr>errors := errors st @ [''Footer scroll failed: '' @ e]\<rparr>, p2)
         | (Inr u2, p2) \<Rightarrow>
        (case footerScan B u primaryNavLinks footerSelectors [] p2 of
           (footerLinks, p3) \<Rightarrow>
             (if length footerLinks > 0
              then (pushSection ''Footer''
                      (slice0 (maxLinks - totalLinksFound st) (values_of footerLinks)) st, p3)
              else (st, p3)))))
      else (st, p))"

section \<open>The tool\<close>

definition DEFAULT_MAX_LINKS :: int where
  "DEFAULT_MAX_LINKS = 50"

text \<open>
  The \<^verbatim>\<open>try\<close>/\<^verbatim>\<open>catch\<close> of \<^verbatim>\<open>execute\<close> (lines 106--302) on a page
  already obtained.  The outer \<^verbatim>\<open>catch\<close> can be reached from the navigation, the wait
  after it and the baseline snapshot only: everything later sits in a \<^verbatim>\<open>try\<close> of its
  own.  The baseline snapshot is taken and not used again.
\<close>

definition exploreTry :: "'p page_api \<Rightarrow> string \<Rightarrow> int \<Rightarrow> 'p \<Rightarrow> Report \<times> 'p" where
  "exploreTry B u maxLinks p =
     (let st0 = \<lparr>pageUrl = u, totalLinksFound = 0, sections = [], errors = []\<rparr>
      in
     (case goto B u p of
        (Inl message, p1) \<Rightarrow> (st0\<lparr>errors := errors st0 @ [message]\<rparr>, p1)
      | (Inr status, p1) \<Rightarrow>
     (case waitForTimeout B 2000 p1 of
        (Inl message, p2) \<Rightarrow> (st0\<lparr>errors := errors st0 @ [message]\<rparr>, p2)
      | (Inr u1, p2) \<Rightarrow>
     (case collectLinks B u (dismissCookieBanners B p2) of
        (Inl message, p3) \<Rightarrow> (st0\<lparr>errors := errors st0 @ [message]\<rparr>, p3)
      | (Inr baseline, p3) \<Rightarrow>
     (case primaryNavScan B u navSelectors [] p3 of
        (primaryNavLinks, p4) \<Rightarrow>
     (case hoverScopes B u maxLinks hoverTargetSelectors
             (primaryNavEmit maxLinks primaryNavLinks st0) p4 of
        (st2, p5) \<Rightarrow>
     (case hamburgerLoop B u maxLinks hamburgerSelectors st2 p5 of
        (st3, p6) \<Rightarrow> footerPhase B u maxLinks primaryNavLinks st3 p6)))))))"

text \<open>
  \<^verbatim>\<open>execute\<close> (lines 99--306).  \<^verbatim>\<open>getPage()\<close> is awaited before the
  \<^verbatim>\<open>try\<close>, and \<^verbatim>\<open>page.close()\<close> in the \<^verbatim>\<open>finally\<close>: a throw of either
  leaves \<^verbatim>\<open>execute\<close> as a rejection (\<open>Inl\<close>), the second one in place of the
  report the \<^verbatim>\<open>try\<close> or \<^verbatim>\<open>catch\<close> was returning.
\<close>

definition maxLinksOf :: "int option \<Rightarrow> int" where
  \<comment> \<open>line 100: \<^verbatim>\<open>rawMaxLinks ?? DEFAULT_MAX_LINKS\<close>\<close>
  "maxLinksOf rawMaxLinks = (case rawMaxLinks of None \<Rightarrow> DEFAULT_MAX_LINKS | Some n \<Rightarrow> n)"

definition execute :: "'p page_api \<Rightarrow> string \<Rightarrow> int option \<Rightarrow> string + Report" where
  "execute B u rawMaxLinks =
     (let maxLinks = maxLinksOf rawMaxLinks
      in case getPage B of
           Inl e \<Rightarrow> Inl e
         | Inr page \<Rightarrow>
             (case exploreTry B u maxLinks page of
                (report, p') \<Rightarrow>
                  (case closePage B p' of
                     (Inl e, p'') \<Rightarrow> Inl e
                   | (Inr u1, p'') \<Rightarrow> Inr report)))"

section \<open>Notions of the specification\<close>

text \<open>
  The links a list of \<^verbatim>\<open>{href, text}\<close> pairs gives rise to, before deduplication: one
  for each pair whose href passes the exclusion test and resolves against the base, keyed
  by the resolved URL, the text cut to 120 characters.
\<close>

definition candidates :: "(string \<Rightarrow> string \<Rightarrow> string option) \<Rightarrow> string \<Rightarrow> (string \<times> string) list
    \<Rightarrow> LinkMap" where
  "candidates R base raw =
     List.map_filter
       (\<lambda>(href, txt). if skipped href then None
                       else map_option (\<lambda>resolved. (resolved, \<lparr>url = resolved, text' = take 120 txt\<rparr>))
                              (R href base))
       raw"

text \<open>
  Deduplication by key that keeps the first entry of each key is \<open>AList.clearjunk\<close>.
  A link set as the specification describes it has pairwise distinct keys, and each link
  carries its key as URL.
\<close>

definition keyed :: "LinkMap \<Rightarrow> bool" where
  "keyed m = (distinct (map fst m) \<and> list_all (\<lambda>kv. url (snd kv) = fst kv) m)"

text \<open>
  The anchors in footer scope: what the footer selectors return, in order, a selector
  whose query throws contributing nothing.
\<close>

fun footerAnchors :: "'p page_api \<Rightarrow> string list \<Rightarrow> 'p \<Rightarrow> (string \<times> string) list \<times> 'p" where
  "footerAnchors B [] p = ([], p)"
| "footerAnchors B (sel # sels) p =
     (case evaluateAnchors B sel p of
        (Inl e, p') \<Rightarrow> footerAnchors B sels p'
      | (Inr raw, p') \<Rightarrow> (raw @ fst (footerAnchors B sels p'), snd (footerAnchors B sels p')))"

text \<open>
  The footer section as the specification words it: the footer-scoped links whose URL the
  primary navigation scan did not capture, deduplicated.
\<close>

definition footer_spec :: "(string \<Rightarrow> string \<Rightarrow> string option) \<Rightarrow> string \<Rightarrow> LinkMap
    \<Rightarrow> (string \<times> string) list \<Rightarrow> LinkInfo list" where
  "footer_spec R base primaryNavLinks raw =
     map snd (AList.clearjunk (filter (\<lambda>kv. \<not> has primaryNavLinks (fst kv)) (candidates R base raw)))"

text \<open>The number of links in a list of sections.\<close>

definition linkTotal :: "Section list \<Rightarrow> int" where
  "linkTotal secs = sum_list (map (\<lambda>s. int (length (links s))) secs)"

text \<open>
  What a phase may do to the run's variables under the budget \<open>m\<close>: append sections,
  count their links, and stay within the budget.
\<close>

definition emitted_within :: "int \<Rightarrow> Report \<Rightarrow> Report \<Rightarrow> bool" where
  "emitted_within m st st' =
     (prefix (sections st) (sections st') \<and>
      totalLinksFound st' =
        totalLinksFound st + linkTotal (drop (length (sections st)) (sections st')) \<and>
      totalLinksFound st' \<le> m)"

definition no_empty_section :: "Report \<Rightarrow> bool" where
  "no_empty_section st = list_all (\<lambda>s. links s \<noteq> []) (sections st)"

definition distinct_urls :: "Report \<Rightarrow> bool" where
  "distinct_urls st = list_all (\<lambda>s. distinct (map url (links s))) (sections st)"

text \<open>The URLs that occur in two sections at different positions of a report.\<close>

definition shared_urls :: "Report \<Rightarrow> string list" where
  "shared_urls st =
     concat (map (\<lambda>i. concat (map (\<lambda>j.
        filter (\<lambda>x. x \<in> set (map url (links (sections st ! j)))) (map url (links (sections st ! i))))
        [Suc i..<length (sections st)])) [0..<length (sections st)])"

section \<open>Example pages\<close>

text \<open>
  Pages to run the tool on.  The state of an example page records the items hovered, the
  selectors clicked, whether the page has been scrolled to the bottom, and whether a
  navigation started by a click is under way.
\<close>

record fx =
  hovers :: "(string \<times> nat) list"
  clicks :: "string list"
  scrolled :: bool
  navigating :: bool

definition fx0 :: fx where
  "fx0 = \<lparr>hovers = [], clicks = [], scrolled = False, navigating = False\<rparr>"

text \<open>
  \<^verbatim>\<open>new URL(href, base).href\<close> on the hrefs of the example pages, for a base on
  \<^verbatim>\<open>https://example.com\<close>: the empty href resolves to the base, an absolute URL of
  the site to itself, a path to the site's origin followed by the path.  The example pages
  use no other href but \<^verbatim>\<open>http://[\<close>, which the URL parser rejects.
\<close>

definition fxResolve :: "string \<Rightarrow> string \<Rightarrow> string option" where
  "fxResolve href base =
     (if href = [] then Some base
      else if prefix ''https://example.com/'' href then Some href
      else if prefix ''/'' href \<and> \<not> prefix ''//'' href then Some (''https://example.com'' @ href)
      else None)"

definition home :: string where
  "home = ''https://example.com/''"

text \<open>
  A page given by the anchors each selector matches in each state, the number of elements
  each hover selector matches, and the selectors whose first match is visible.  Nothing
  throws; a query for anchors during a navigation fails once, as Playwright's does.
\<close>

definition scripted :: "(fx \<Rightarrow> string \<Rightarrow> (string \<times> string) list) \<Rightarrow> (string \<Rightarrow> nat) \<Rightarrow> (string \<Rightarrow> bool)
    \<Rightarrow> fx page_api" where
  "scripted anchors counts visible =
     \<lparr>getPage = Inr fx0,
      goto = (\<lambda>u p. (Inr 200, p)),
      waitForTimeout = (\<lambda>ms p. (Inr (), p)),
      evaluateAnchors = (\<lambda>sel p.
         if navigating p then (Inl ''Execution context was destroyed'', p\<lparr>navigating := False\<rparr>)
         else (Inr (anchors p sel), p)),
      locCount = (\<lambda>sel p. (Inr (counts sel), p)),
      nthTextContent = (\<lambda>sel i t p. (Inr (Some ''  Products  ''), p)),
      nthHover = (\<lambda>sel i t p. (Inr (), p\<lparr>hovers := hovers p @ [(sel, i)]\<rparr>)),
      firstIsVisible = (\<lambda>sel t p. (Inr (visible sel), p)),
      firstClick = (\<lambda>sel t p. (Inr (), p\<lparr>clicks := clicks p @ [sel]\<rparr>)),
      scrollToBottom = (\<lambda>p. (Inr (), p\<lparr>scrolled := True\<rparr>)),
      closePage = (\<lambda>p. (Inr (), p)),
      resolveURL = fxResolve\<rparr>"

text \<open>
  A shop front: two links in the navigation bar; one menu item whose dropdown, shown while
  the item is hovered, holds one more link; a footer of four links, loaded when the page is
  scrolled to the bottom, two of which repeat the navigation bar.
\<close>

definition shopNav :: "(string \<times> string) list" where
  "shopNav = [(''/pricing'', ''Pricing''), (''/docs'', ''Docs'')]"

definition shopDropdown :: "(string \<times> string) list" where
  "shopDropdown = [(''/about'', ''About us'')]"

definition shopFooter :: "(string \<times> string) list" where
  "shopFooter =
     [(''/pricing'', ''Pricing''), (''/docs'', ''Documentation''),
      (''/about'', ''About''), (''/careers'', ''Careers'')]"

definition shopAnchors :: "fx \<Rightarrow> string \<Rightarrow> (string \<times> string) list" where
  "shopAnchors p sel =
     (if sel = ''nav a'' then shopNav
      else if sel = ''footer a'' then (if scrolled p then shopFooter else [])
      else if sel = ''a[href]'' then
        shopNav @ (if hovers p \<noteq> [] then shopDropdown else []) @ (if scrolled p then shopFooter else [])
      else [])"

definition shop :: "fx page_api" where
  "shop = scripted shopAnchors (\<lambda>sel. if sel = ''nav > ul > li'' then 1 else 0) (\<lambda>sel. False)"

text \<open>The shop answering with status 404, unreachable, and without a browser to open it in.\<close>

definition shop404 :: "fx page_api" where
  "shop404 = shop\<lparr>goto := (\<lambda>u p. (Inr 404, p))\<rparr>"

definition shopDown :: "fx page_api" where
  "shopDown = shop\<lparr>goto := (\<lambda>u p. (Inl ''net::ERR_NAME_NOT_RESOLVED'', p))\<rparr>"

definition shopNoBrowser :: "fx page_api" where
  "shopNoBrowser = shop\<lparr>getPage := Inl ''connect ECONNREFUSED''\<rparr>"

text \<open>A page of anchors of every kind the collector tells apart.\<close>

definition mixedAnchors :: "(string \<times> string) list" where
  "mixedAnchors =
     [(''javascript:alert(1)'', ''Pop''), (''mailto:a@b.com'', ''Mail''), (''tel:123'', ''Call''),
      (''#'', ''Top''), (''http://['', ''Broken''), (''/pricing'', ''Pricing''),
      (''/pricing'', ''Plans'')]"

definition mixed :: "fx page_api" where
  "mixed = scripted (\<lambda>p sel. mixedAnchors) (\<lambda>sel. 0) (\<lambda>sel. False)"

text \<open>A page whose only anchor has an empty href.\<close>

definition logo :: "fx page_api" where
  "logo = scripted (\<lambda>p sel. [([], ''Home'')]) (\<lambda>sel. 0) (\<lambda>sel. False)"

text \<open>
  Two menu toggles, the first matched by the first hamburger selector, the second by the
  fourth; a click on the second shows one more link, the next click hides it.  On
  \<open>stuck\<close> the click on the first toggle times out; on \<open>leaving\<close> it starts a
  navigation.
\<close>

definition toggle1 :: string where
  \<open>toggle1 = ''button[aria-label*="menu" i]''\<close>

definition toggle2 :: string where
  \<open>toggle2 = ''[class*="hamburger"]''\<close>

definition toggleAnchors :: "fx \<Rightarrow> string \<Rightarrow> (string \<times> string) list" where
  "toggleAnchors p sel =
     (if sel = ''a[href]'' then
        [(''/pricing'', ''Pricing'')] @
        (if odd (length (filter (\<lambda>c. c = toggle2) (clicks p))) then [(''/login'', ''Log in'')] else [])
      else [])"

definition toggles :: "fx page_api" where
  "toggles = scripted toggleAnchors (\<lambda>sel. 0) (\<lambda>sel. sel = toggle1 \<or> sel = toggle2)"

definition stuck :: "fx page_api" where
  "stuck = toggles\<lparr>firstClick := (\<lambda>sel t p.
     if sel = toggle1 then (Inl ''Timeout 3000ms exceeded'', p)
     else (Inr (), p\<lparr>clicks := clicks p @ [sel]\<rparr>))\<rparr>"

definition leaving :: "fx page_api" where
  "leaving = toggles\<lparr>firstClick := (\<lambda>sel t p.
     if sel = toggle1 then (Inr (), p\<lparr>clicks := clicks p @ [sel], navigating := True\<rparr>)
     else (Inr (), p\<lparr>clicks := clicks p @ [sel]\<rparr>))\<rparr>"

text \<open>What the tool returns on the shop: with the default budget, and with a budget of 3.\<close>

definition shopFull :: Report where
  "shopFull =
     \<lparr>pageUrl = ''https://example.com/'', totalLinksFound = 5,
      sections =
        [\<lparr>label = ''Primary Nav'',
           links = [\<lparr>url = ''https://example.com/pricing'', text' = ''Pricing''\<rparr>,
                    \<lparr>url = ''https://example.com/docs'', text' = ''Docs''\<rparr>]\<rparr>,
         \<lparr>label = ''Dropdown: Products'',
           links = [\<lparr>url = ''https://example.com/about'', text' = ''About us''\<rparr>]\<rparr>,
         \<lparr>label = ''Footer'',
           links = [\<lparr>url = ''https://example.com/about'', text' = ''About''\<rparr>,
                    \<lparr>url = ''https://example.com/careers'', text' = ''Careers''\<rparr>]\<rparr>],
      errors = []\<rparr>"

definition shopCut :: Report where
  "shopCut =
     \<lparr>pageUrl = ''https://example.com/'', totalLinksFound = 3,
      sections =
        [\<lparr>label = ''Primary Nav'',
           links = [\<lparr>url = ''https://example.com/pricing'', text' = ''Pricing''\<rparr>,
                    \<lparr>url = ''https://example.com/docs'', text' = ''Docs''\<rparr>]\<rparr>,
         \<lparr>label = ''Dropdown: Products'',
           links = [\<lparr>url = ''https://example.com/about'', text' = ''About us''\<rparr>]\<rparr>],
      errors = []\<rparr>"

text \<open>The variables of a run at its start.\<close>

definition st0 :: "string \<Rightarrow> Report" where
  "st0 u = \<lparr>pageUrl = u, totalLinksFound = 0, sections = [], errors = []\<rparr>"

section \<open>Properties of the snapshot difference\<close>

lemma diffLoop_filter:
  "diffLoop beforeMap after acc = acc @ map snd (filter (\<lambda>kv. fst kv \<notin> fst ` set beforeMap) after)"
  by (induction after arbitrary: acc) (force simp: has_def)+

text \<open>
  Claim C5.  For all link sets \<open>beforeMap\<close> and \<open>after\<close>, \<open>diffLinks beforeMap after\<close> is
  exactly the list of the links of \<open>after\<close> whose key is absent from \<open>beforeMap\<close>, in the
  iteration order of \<open>after\<close> and with the values \<open>after\<close> holds; and
  \<open>diffLinks A A\<close> is empty for every \<open>A\<close>.  Being a function of its two arguments,
  the result is determined by them.
\<close>

theorem diffLinks_correct:
  "diffLinks beforeMap after = diff_spec beforeMap after \<and> diffLinks A A = []"
  by (simp add: diffLinks_def diff_spec_def diffLoop_filter)

section \<open>Link sets\<close>

lemma candidates_Nil: "candidates R base [] = []"
  by (simp add: candidates_def)

lemma candidates_Cons:
  "candidates R base ((href, txt) # raw) =
     (if skipped href then candidates R base raw
      else (case R href base of
              None \<Rightarrow> candidates R base raw
            | Some k \<Rightarrow> (k, \<lparr>url = k, text' = take 120 txt\<rparr>) # candidates R base raw))"
  by (simp add: candidates_def split: option.splits)

lemma delete_filter:
  "AList.delete k (filter P xs) = filter (\<lambda>x. P x \<and> fst x \<noteq> k) xs"
  by (induction xs) (auto simp: AList.delete_eq)

lemma addRawFooter_clearjunk:
  "addRawFooter R base pn raw m =
     m @ AList.clearjunk (filter (\<lambda>kv. \<not> has m (fst kv) \<and> \<not> has pn (fst kv)) (candidates R base raw))"
proof (induction raw arbitrary: m)
  case Nil
  then show ?case by (simp add: candidates_Nil)
next
  case (Cons x raw)
  obtain href t where x: "x = (href, t)" by (cases x)
  show ?case
  proof (cases "skipped href")
    case True
    then show ?thesis using Cons.IH x by (simp add: candidates_Cons)
  next
    case False
    show ?thesis
    proof (cases "R href base")
      case None
      then show ?thesis using Cons.IH x False by (simp add: candidates_Cons)
    next
      case (Some k)
      show ?thesis
      proof (cases "\<not> has m k \<and> \<not> has pn k")
        case True
        have hm: "has (m @ [(k, v)]) k' = (has m k' \<or> k' = k)" for v k'
          by (auto simp: has_def)
        have "AList.delete k (filter (\<lambda>kv. \<not> has m (fst kv) \<and> \<not> has pn (fst kv)) (candidates R base raw))
            = filter (\<lambda>kv. \<not> has (m @ [(k, \<lparr>url = k, text' = take 120 t\<rparr>)]) (fst kv) \<and> \<not> has pn (fst kv))
                (candidates R base raw)"
          unfolding delete_filter by (rule filter_cong) (auto simp: hm)
        then show ?thesis
          using Cons.IH [of "m @ [(k, \<lparr>url = k, text' = take 120 t\<rparr>)]"] x False Some True
          by (simp add: candidates_Cons)
      next
        case no: False
        then show ?thesis using Cons.IH [of m] x False Some
          by (auto simp: candidates_Cons)
      qed
    qed
  qed
qed

lemma addRaw_is_footer: "addRaw R base raw m = addRawFooter R base [] raw m"
  by (induction raw arbitrary: m) (auto simp: has_def split: option.splits)

lemma addRaw_clearjunk:
  "addRaw R base raw [] = AList.clearjunk (candidates R base raw)"
  by (simp add: addRaw_is_footer addRawFooter_clearjunk has_def)

lemma keyed_Nil: "keyed []"
  by (simp add: keyed_def)

lemma keyed_snoc: "keyed m \<Longrightarrow> \<not> has m k \<Longrightarrow> keyed (m @ [(k, \<lparr>url = k, text' = t\<rparr>)])"
  by (auto simp: keyed_def has_def list_all_iff)

lemma keyed_addRawFooter: "keyed m \<Longrightarrow> keyed (addRawFooter R base pn raw m)"
  by (induction raw arbitrary: m) (auto simp: keyed_snoc split: option.splits)

lemma keyed_addRaw: "keyed m \<Longrightarrow> keyed (addRaw R base raw m)"
  by (simp add: addRaw_is_footer keyed_addRawFooter)

lemma keyed_urls: "keyed m \<Longrightarrow> map url (values_of m) = map fst m"
  by (simp add: keyed_def values_of_def list_all_iff)

lemma keyed_distinct_values: "keyed m \<Longrightarrow> distinct (map url (values_of m))"
  by (simp add: keyed_urls) (simp add: keyed_def)

lemma keyed_filter: "keyed m \<Longrightarrow> keyed (filter Q m)"
  by (auto simp: keyed_def distinct_map_filter list_all_iff)

lemma keyed_distinct_diff: "keyed a \<Longrightarrow> distinct (map url (diffLinks b a))"
proof -
  assume "keyed a"
  then have "keyed (filter (\<lambda>kv. fst kv \<notin> fst ` set b) a)" by (rule keyed_filter)
  then have "distinct (map url (values_of (filter (\<lambda>kv. fst kv \<notin> fst ` set b) a)))"
    by (rule keyed_distinct_values)
  then show ?thesis by (simp add: diffLinks_def diffLoop_filter values_of_def)
qed

lemma collectLinks_keyed: "collectLinks B u p = (Inr a, p') \<Longrightarrow> keyed a"
  by (auto simp: collectLinks_def keyed_addRaw keyed_Nil split: prod.splits sum.splits)

lemma distinct_slice0: "distinct (map f xs) \<Longrightarrow> distinct (map f (slice0 n xs))"
  by (auto simp: slice0_def take_map [symmetric] distinct_take simp del: take_map)

lemma primaryNavScan_keyed: "keyed m \<Longrightarrow> keyed (fst (primaryNavScan B u sels m p))"
  by (induction sels arbitrary: m p) (auto simp: keyed_addRaw split: prod.splits sum.splits)

lemma footerScan_keyed: "keyed m \<Longrightarrow> keyed (fst (footerScan B u pn sels m p))"
  by (induction sels arbitrary: m p) (auto simp: keyed_addRawFooter split: prod.splits sum.splits)

section \<open>What every phase preserves\<close>

lemma hoverItem_cases:
  "fst (hoverItem B u m sel i st p) = st \<or>
   (\<exists>lbl xs. xs \<noteq> [] \<and> distinct (map url xs) \<and>
      fst (hoverItem B u m sel i st p) = pushSection lbl (slice0 (m - totalLinksFound st) xs) st)"
proof -
  have *: "\<exists>lbl xs. xs \<noteq> [] \<and> distinct (map url xs) \<and>
      pushSection l (slice0 k (diffLinks b a)) st = pushSection lbl (slice0 k xs) st"
    if "collectLinks B u p' = (Inr a, p'')" "diffLinks b a \<noteq> []" for l k b a p' p''
    using that keyed_distinct_diff [OF collectLinks_keyed [OF that(1)], of b] by blast
  show ?thesis
    unfolding hoverItem_def Let_def
    by (simp split: prod.split sum.split) (use * in blast)
qed

lemma hoverItem_pres:
  assumes emit: "\<And>st lbl xs. P st \<Longrightarrow> (g \<longrightarrow> totalLinksFound st < m) \<Longrightarrow> xs \<noteq> [] \<Longrightarrow>
      distinct (map url xs) \<Longrightarrow> P (pushSection lbl (slice0 (m - totalLinksFound st) xs) st)"
    and "P st" and "g \<longrightarrow> totalLinksFound st < m"
  shows "P (fst (hoverItem B u m sel i st p))"
  using hoverItem_cases [of B u m sel i st p] emit [OF assms(2,3)] assms(2) by auto

lemma hoverItems_pres:
  assumes emit: "\<And>st lbl xs. P st \<Longrightarrow> (g \<longrightarrow> totalLinksFound st < m) \<Longrightarrow> xs \<noteq> [] \<Longrightarrow>
      distinct (map url xs) \<Longrightarrow> P (pushSection lbl (slice0 (m - totalLinksFound st) xs) st)"
    and "P st"
  shows "P (fst (hoverItems B u m sel ixs st p))"
  using assms(2)
proof (induction ixs arbitrary: st p)
  case Nil
  then show ?case by simp
next
  case (Cons i ixs)
  show ?case
  proof (cases "totalLinksFound st \<ge> m")
    case True
    then show ?thesis using Cons.prems by simp
  next
    case False
    obtain st' p' where h: "hoverItem B u m sel i st p = (st', p')"
      by (cases "hoverItem B u m sel i st p")
    have "P (fst (hoverItem B u m sel i st p))"
    proof (rule hoverItem_pres [where g = g])
      show "P st" by (rule Cons.prems)
      show "g \<longrightarrow> totalLinksFound st < m" using False by simp
    qed (rule emit)
    then have "P st'" using h by simp
    then have "P (fst (hoverItems B u m sel ixs st' p'))" by (rule Cons.IH)
    then show ?thesis using False h by simp
  qed
qed

lemma hoverScopes_pres:
  assumes emit: "\<And>st lbl xs. P st \<Longrightarrow> (g \<longrightarrow> totalLinksFound st < m) \<Longrightarrow> xs \<noteq> [] \<Longrightarrow>
      distinct (map url xs) \<Longrightarrow> P (pushSection lbl (slice0 (m - totalLinksFound st) xs) st)"
    and "P st"
  shows "P (fst (hoverScopes B u m sels st p))"
  using assms(2)
proof (induction sels arbitrary: st p)
  case Nil
  then show ?case by simp
next
  case (Cons sel sels)
  obtain r p1 where c: "locCount B sel p = (r, p1)" by (cases "locCount B sel p")
  show ?case
  proof (cases r)
    case (Inl e)
    then show ?thesis using c Cons.prems Cons.IH [OF Cons.prems] by simp
  next
    case (Inr n)
    obtain st2 p2 where h: "hoverItems B u m sel [0..<min n 15] st p1 = (st2, p2)"
      by (cases "hoverItems B u m sel [0..<min n 15] st p1")
    have "P (fst (hoverItems B u m sel [0..<min n 15] st p1))"
      by (rule hoverItems_pres [where g = g, OF emit Cons.prems])
    then have st2: "P st2" using h by simp
    show ?thesis using c Inr h st2 Cons.IH [OF st2] Cons.IH [OF Cons.prems] by simp
  qed
qed

lemma hamburgerLoop_step:
  "(\<exists>p'. hamburgerLoop B u m (sel # sels) st p = (st, p')) \<or>
   (\<exists>p'. hamburgerLoop B u m (sel # sels) st p = hamburgerLoop B u m sels st p') \<or>
   (totalLinksFound st < m \<and>
    (\<exists>lbl xs p'. xs \<noteq> [] \<and> distinct (map url xs) \<and>
       hamburgerLoop B u m (sel # sels) st p =
         (pushSection lbl (slice0 (m - totalLinksFound st) xs) st, p')))"
proof -
  have *: "\<exists>lbl xs. xs \<noteq> [] \<and> distinct (map url xs) \<and>
      pushSection l (slice0 k (diffLinks b a)) st = pushSection lbl (slice0 k xs) st"
    if "collectLinks B u p' = (Inr a, p'')" "diffLinks b a \<noteq> []" for l k b a p' p''
    using that keyed_distinct_diff [OF collectLinks_keyed [OF that(1)], of b] by blast
  show ?thesis
  proof (cases "totalLinksFound st \<ge> m")
    case True
    then show ?thesis by simp
  next
    case False
    then show ?thesis
      by (simp add: Let_def split: prod.split sum.split bool.split) (use * in blast)
  qed
qed

lemma hamburgerLoop_pres:
  assumes emit: "\<And>st lbl xs. P st \<Longrightarrow> (g \<longrightarrow> totalLinksFound st < m) \<Longrightarrow> xs \<noteq> [] \<Longrightarrow>
      distinct (map url xs) \<Longrightarrow> P (pushSection lbl (slice0 (m - totalLinksFound st) xs) st)"
    and "P st"
  shows "P (fst (hamburgerLoop B u m sels st p))"
proof (induction sels arbitrary: p)
  case Nil
  then show ?case using assms(2) by simp
next
  case (Cons sel sels)
  from hamburgerLoop_step [of B u m sel sels st p] show ?case
  proof (elim disjE exE conjE)
    fix p' assume "hamburgerLoop B u m (sel # sels) st p = (st, p')"
    then show ?thesis using assms(2) by simp
  next
    fix p' assume "hamburgerLoop B u m (sel # sels) st p = hamburgerLoop B u m sels st p'"
    then show ?thesis using Cons.IH [of p'] by simp
  next
    fix lbl xs p'
    assume "totalLinksFound st < m" "xs \<noteq> []" "distinct (map url xs)"
      and eq: "hamburgerLoop B u m (sel # sels) st p =
         (pushSection lbl (slice0 (m - totalLinksFound st) xs) st, p')"
    then have "P (pushSection lbl (slice0 (m - totalLinksFound st) xs) st)"
      using assms(2) by (auto intro: emit)
    then show ?thesis using eq by simp
  qed
qed

lemma footerPhase_pres:
  assumes emit: "\<And>st lbl xs. P st \<Longrightarrow> (g \<longrightarrow> totalLinksFound st < m) \<Longrightarrow> xs \<noteq> [] \<Longrightarrow>
      distinct (map url xs) \<Longrightarrow> P (pushSection lbl (slice0 (m - totalLinksFound st) xs) st)"
    and err: "\<And>st e. P st \<Longrightarrow> P (st\<lparr>errors := errors st @ [e]\<rparr>)"
    and "P st"
  shows "P (fst (footerPhase B u m pn st p))"
proof (cases "totalLinksFound st < m")
  case False
  then show ?thesis using assms(3) by (simp add: footerPhase_def)
next
  case True
  have *: "P (pushSection ''Footer'' (slice0 (m - totalLinksFound st) (values_of fl)) st)"
    if "footerScan B u pn footerSelectors [] p' = (fl, p'')" "fl \<noteq> []" for fl p' p''
  proof (rule emit)
    have "keyed (fst (footerScan B u pn footerSelectors [] p'))"
      by (rule footerScan_keyed [OF keyed_Nil])
    then show "distinct (map url (values_of fl))" using that by (simp add: keyed_distinct_values)
    show "values_of fl \<noteq> []" using that by (simp add: values_of_def)
  qed (use True assms(3) in auto)
  show ?thesis
    using True assms(3) err [OF assms(3)] *
    by (simp add: footerPhase_def split: prod.split sum.split)
qed

lemma primaryNavEmit_pres:
  assumes emit: "\<And>st lbl xs. P st \<Longrightarrow> (g \<longrightarrow> totalLinksFound st < m) \<Longrightarrow> xs \<noteq> [] \<Longrightarrow>
      distinct (map url xs) \<Longrightarrow> P (pushSection lbl (slice0 (m - totalLinksFound st) xs) st)"
    and "P st" and "totalLinksFound st = 0" and "g \<longrightarrow> 1 \<le> m" and "keyed pn"
  shows "P (primaryNavEmit m pn st)"
proof (cases "pn = []")
  case True
  then show ?thesis using assms(2) by (simp add: primaryNavEmit_def)
next
  case False
  have "P (pushSection ''Primary Nav'' (slice0 (m - totalLinksFound st) (values_of pn)) st)"
  proof (rule emit)
    show "distinct (map url (values_of pn))" using assms(5) by (rule keyed_distinct_values)
    show "values_of pn \<noteq> []" using False by (simp add: values_of_def)
  qed (use assms(2-4) in auto)
  then show ?thesis using False assms(3) by (simp add: primaryNavEmit_def)
qed

lemma exploreTry_pres:
  assumes emit: "\<And>st lbl xs. P st \<Longrightarrow> (g \<longrightarrow> totalLinksFound st < m) \<Longrightarrow> xs \<noteq> [] \<Longrightarrow>
      distinct (map url xs) \<Longrightarrow> P (pushSection lbl (slice0 (m - totalLinksFound st) xs) st)"
    and err: "\<And>st e. P st \<Longrightarrow> P (st\<lparr>errors := errors st @ [e]\<rparr>)"
    and init: "P \<lparr>pageUrl = u, totalLinksFound = 0, sections = [], errors = []\<rparr>"
    and "g \<longrightarrow> 1 \<le> m"
  shows "P (fst (exploreTry B u m p))"
proof -
  let ?st0 = "\<lparr>pageUrl = u, totalLinksFound = 0, sections = [], errors = []\<rparr>"
  have fail: "P (?st0\<lparr>errors := errors ?st0 @ [e]\<rparr>)" for e
    by (rule err [OF init])
  have run: "P (fst (footerPhase B u m (fst (primaryNavScan B u navSelectors [] p3))
                (fst (hamburgerLoop B u m hamburgerSelectors
                   (fst (hoverScopes B u m hoverTargetSelectors
                      (primaryNavEmit m (fst (primaryNavScan B u navSelectors [] p3)) ?st0) p4)) p5)) p6))"
    for p3 p4 p5 p6
  proof -
    let ?pn = "fst (primaryNavScan B u navSelectors [] p3)"
    have 1: "P (primaryNavEmit m ?pn ?st0)"
    proof (rule primaryNavEmit_pres [where g = g and P = P])
      show "P ?st0" by (rule init)
      show "g \<longrightarrow> 1 \<le> m" by (rule assms(4))
      show "keyed ?pn" by (rule primaryNavScan_keyed [OF keyed_Nil])
    qed (rule emit, simp_all)
    have 2: "P (fst (hoverScopes B u m hoverTargetSelectors (primaryNavEmit m ?pn ?st0) p4))"
    proof (rule hoverScopes_pres [where g = g and P = P])
      show "P (primaryNavEmit m ?pn ?st0)" by (rule 1)
    qed (rule emit)
    have 3: "P (fst (hamburgerLoop B u m hamburgerSelectors
                   (fst (hoverScopes B u m hoverTargetSelectors (primaryNavEmit m ?pn ?st0) p4)) p5))"
    proof (rule hamburgerLoop_pres [where g = g and P = P])
      show "P (fst (hoverScopes B u m hoverTargetSelectors (primaryNavEmit m ?pn ?st0) p4))"
        by (rule 2)
    qed (rule emit)
    show ?thesis
    proof (rule footerPhase_pres [where g = g and P = P])
      show "P (fst (hamburgerLoop B u m hamburgerSelectors
                   (fst (hoverScopes B u m hoverTargetSelectors (primaryNavEmit m ?pn ?st0) p4)) p5))"
        by (rule 3)
      show "\<And>st e. P st \<Longrightarrow> P (st\<lparr>errors := errors st @ [e]\<rparr>)" by (rule err)
    qed (rule emit)
  qed
  show ?thesis
    unfolding exploreTry_def Let_def case_prod_beta
    using fail run by (simp split: sum.split)
qed

section \<open>The link collector\<close>

lemma candidates_filter:
  "candidates R base (filter (\<lambda>(href, t). \<not> skipped href \<and> R href base \<noteq> None) raw) =
   candidates R base raw"
  by (induction raw) (auto simp: candidates_Nil candidates_Cons split: option.splits)

lemma candidates_built:
  "kv \<in> set (candidates R base raw) \<Longrightarrow>
   \<exists>href t. (href, t) \<in> set raw \<and> \<not> skipped href \<and> R href base = Some (fst kv) \<and>
           snd kv = \<lparr>url = fst kv, text' = take 120 t\<rparr>"
proof (induction raw)
  case Nil
  then show ?case by (simp add: candidates_Nil)
next
  case (Cons x raw)
  obtain href t where x: "x = (href, t)" by (cases x)
  show ?case
  proof (cases "kv \<in> set (candidates R base raw)")
    case True
    then show ?thesis using Cons.IH by auto
  next
    case False
    then have "\<not> skipped href \<and> R href base = Some (fst kv) \<and>
        snd kv = \<lparr>url = fst kv, text' = take 120 t\<rparr>"
      using Cons.prems x by (auto simp: candidates_Cons split: if_splits option.splits)
    then show ?thesis using x by auto
  qed
qed

lemma set_clearjunk_subset: "set (AList.clearjunk al) \<subseteq> set al"
proof (induction al rule: AList.clearjunk.induct)
  case 1
  then show ?case by simp
next
  case (2 p ps)
  have "set (AList.delete (fst p) ps) \<subseteq> set ps" by (auto simp: AList.delete_eq)
  then show ?case using 2 by auto
qed

text \<open>
  Claim C3, amended.  Whenever the page query of the link collector returns, for every
  list of \<open>(href, text)\<close> pairs it returns and every base URI, the collector returns a link
  set and does not fail; that link set is the first-wins deduplication of the links built
  from the hrefs that pass the exclusion test and resolve; pairs whose href begins with
  \<open>javascript:\<close>, \<open>mailto:\<close> or \<open>tel:\<close>, is exactly \<open>#\<close>, or does not resolve
  can be removed from the input without changing the result; and every link of the result
  is built from a pair whose href has none of these defects.  (An empty href is not
  excluded: it is resolved like any other.)
\<close>

theorem collectLinks_excludes:
  assumes "fst (evaluateAnchors B ''a[href]'' p) = Inr raw"
  shows "\<exists>m. fst (collectLinks B base p) = Inr m \<and>
           m = AList.clearjunk (candidates (resolveURL B) base raw) \<and>
           m = AList.clearjunk (candidates (resolveURL B) base
                 (filter (\<lambda>(href, t). \<not> skipped href \<and> resolveURL B href base \<noteq> None) raw)) \<and>
           (\<forall>kv \<in> set m. \<exists>href t. (href, t) \<in> set raw \<and> \<not> skipped href \<and>
               resolveURL B href base = Some (fst kv) \<and>
               snd kv = \<lparr>url = fst kv, text' = take 120 t\<rparr>)"
proof -
  let ?m = "AList.clearjunk (candidates (resolveURL B) base raw)"
  have "fst (collectLinks B base p) = Inr ?m"
    using assms by (simp add: collectLinks_def case_prod_beta addRaw_clearjunk)
  moreover have "\<forall>kv \<in> set ?m. \<exists>href t. (href, t) \<in> set raw \<and> \<not> skipped href \<and>
               resolveURL B href base = Some (fst kv) \<and>
               snd kv = \<lparr>url = fst kv, text' = take 120 t\<rparr>"
    using set_clearjunk_subset [of "candidates (resolveURL B) base raw"] candidates_built
    by blast
  moreover have "candidates (resolveURL B) base
      (filter (\<lambda>(href, t). \<not> skipped href \<and> resolveURL B href base \<noteq> None) raw) =
    candidates (resolveURL B) base raw"
    by (rule candidates_filter)
  ultimately show ?thesis by simp
qed

theorem collectLinks_excludes_witness:
  "fst (evaluateAnchors mixed ''a[href]'' fx0) = Inr mixedAnchors \<and>
   fst (collectLinks mixed home fx0) =
     Inr [(''https://example.com/pricing'',
           \<lparr>url = ''https://example.com/pricing'', text' = ''Pricing''\<rparr>)]"
proof -
  have h: "fst (evaluateAnchors mixed ''a[href]'' fx0) = Inr mixedAnchors"
    by code_simp
  have "AList.clearjunk (candidates (resolveURL mixed) home mixedAnchors) =
     [(''https://example.com/pricing'',
           \<lparr>url = ''https://example.com/pricing'', text' = ''Pricing''\<rparr>)]"
    by code_simp
  then show ?thesis using collectLinks_excludes [OF h, of home] h by auto
qed

theorem collectLinks_empty_href_counterexample:
  "fst (evaluateAnchors logo ''a[href]'' fx0) = Inr [([], ''Home'')] \<and>
   fst (collectLinks logo ''https://example.com/'' fx0) =
     Inr [(''https://example.com/'', \<lparr>url = ''https://example.com/'', text' = ''Home''\<rparr>)]"
  by code_simp

section \<open>Fatal failures\<close>

lemma exploreTry_goto_fails:
  "fst (goto B u p) = Inl message \<Longrightarrow>
   exploreTry B u m p =
     (\<lparr>pageUrl = u, totalLinksFound = 0, sections = [], errors = [message]\<rparr>, snd (goto B u p))"
  by (simp add: exploreTry_def case_prod_beta)

text \<open>
  Claim C1, amended.  If the initial navigation fails, that is \<^verbatim>\<open>page.goto\<close> throws,
  the run aborts at once, and (the page having been obtained and closing without a throw)
  the tool returns a report with no sections, \<open>totalLinksFound = 0\<close> and exactly one entry
  in \<open>errors\<close>, the failure's message.  (An HTTP error status of a navigation that does
  not throw does not abort the run.)
\<close>

theorem navigation_failure_aborts:
  assumes "getPage B = Inr p"
    and "fst (goto B u p) = Inl message"
    and "fst (closePage B (snd (goto B u p))) = Inr ()"
  shows "execute B u rawMaxLinks =
           Inr \<lparr>pageUrl = u, totalLinksFound = 0, sections = [], errors = [message]\<rparr>"
  using assms
  by (simp add: execute_def exploreTry_goto_fails case_prod_beta)

theorem navigation_failure_aborts_witness:
  "getPage shopDown = Inr fx0 \<and>
   fst (goto shopDown home fx0) = Inl ''net::ERR_NAME_NOT_RESOLVED'' \<and>
   fst (closePage shopDown (snd (goto shopDown home fx0))) = Inr () \<and>
   execute shopDown home None =
     Inr \<lparr>pageUrl = home, totalLinksFound = 0, sections = [],
          errors = [''net::ERR_NAME_NOT_RESOLVED'']\<rparr>"
proof -
  have 1: "getPage shopDown = Inr fx0" by code_simp
  have 2: "fst (goto shopDown home fx0) = Inl ''net::ERR_NAME_NOT_RESOLVED''" by code_simp
  have 3: "fst (closePage shopDown (snd (goto shopDown home fx0))) = Inr ()" by code_simp
  show ?thesis using navigation_failure_aborts [OF 1 2 3, of None] 1 2 3 by simp
qed

theorem http_error_status_counterexample:
  "fst (goto shop404 home fx0) = Inr 404 \<and>
   execute shop404 home None =
     Inr \<lparr>pageUrl = ''https://example.com/'', totalLinksFound = 5,
          sections =
            [\<lparr>label = ''Primary Nav'',
               links = [\<lparr>url = ''https://example.com/pricing'', text' = ''Pricing''\<rparr>,
                        \<lparr>url = ''https://example.com/docs'', text' = ''Docs''\<rparr>]\<rparr>,
             \<lparr>label = ''Dropdown: Products'',
               links = [\<lparr>url = ''https://example.com/about'', text' = ''About us''\<rparr>]\<rparr>,
             \<lparr>label = ''Footer'',
               links = [\<lparr>url = ''https://example.com/about'', text' = ''About''\<rparr>,
                        \<lparr>url = ''https://example.com/careers'', text' = ''Careers''\<rparr>]\<rparr>],
          errors = []\<rparr>"
  by code_simp

section \<open>The budget\<close>

lemma st0_eq: "\<lparr>pageUrl = u, totalLinksFound = 0, sections = [], errors = []\<rparr> = st0 u"
  by (simp add: st0_def)

lemma linkTotal_append: "linkTotal (xs @ ys) = linkTotal xs + linkTotal ys"
  by (simp add: linkTotal_def)

lemma linkTotal_nonneg: "0 \<le> linkTotal xs"
  unfolding linkTotal_def by (rule sum_list_nonneg) auto

lemma length_slice0_le: "0 \<le> n \<Longrightarrow> int (length (slice0 n xs)) \<le> n"
  by (simp add: slice0_def)

lemma slice0_nonempty: "1 \<le> n \<Longrightarrow> xs \<noteq> [] \<Longrightarrow> slice0 n xs \<noteq> []"
  by (simp add: slice0_def)

lemma emitted_within_refl: "totalLinksFound st \<le> m \<Longrightarrow> emitted_within m st st"
  by (simp add: emitted_within_def linkTotal_def)

lemma emitted_within_push:
  assumes "emitted_within m st st'" and "totalLinksFound st' < m"
  shows "emitted_within m st (pushSection lbl (slice0 (m - totalLinksFound st') xs) st')"
proof -
  let ?ls = "slice0 (m - totalLinksFound st') xs"
  have pre: "prefix (sections st) (sections st')" using assms(1) by (simp add: emitted_within_def)
  then have len: "length (sections st) \<le> length (sections st')" by (rule prefix_length_le)
  have "int (length ?ls) \<le> m - totalLinksFound st'"
    using assms(2) by (intro length_slice0_le) simp
  moreover have "linkTotal [\<lparr>label = lbl, links = ?ls\<rparr>] = int (length ?ls)"
    by (simp add: linkTotal_def)
  ultimately show ?thesis
    using assms(1) pre len
    by (simp add: emitted_within_def pushSection_def linkTotal_append)
qed

lemma emitted_within_errors:
  "emitted_within m st st' \<Longrightarrow> emitted_within m st (st'\<lparr>errors := errors st' @ [e]\<rparr>)"
  by (simp add: emitted_within_def)

lemma emitted_within_total:
  "emitted_within m (st0 u) st \<Longrightarrow>
   totalLinksFound st \<le> m \<and> 0 \<le> totalLinksFound st \<and> totalLinksFound st = linkTotal (sections st)"
  using linkTotal_nonneg [of "sections st"] by (simp add: emitted_within_def st0_def)

lemma execute_report:
  "execute B u raw = Inr rep \<Longrightarrow> \<exists>p. rep = fst (exploreTry B u (maxLinksOf raw) p)"
  by (auto simp: execute_def case_prod_beta split: sum.splits)

text \<open>
  Claim C2.  For every run with \<open>maxLinks\<close> a positive integer, the report the tool returns
  has \<open>totalLinksFound \<le> maxLinks\<close>, and \<open>totalLinksFound\<close> is the sum over the sections
  of their numbers of links (and so never negative).  Every phase, started within the
  budget, appends sections whose links number at most the remaining budget
  \<open>maxLinks - totalLinksFound\<close>, and counts exactly those.
\<close>

theorem budget_respected:
  assumes "1 \<le> maxLinksOf raw"
  shows "(execute B u raw = Inr rep \<longrightarrow>
            totalLinksFound rep \<le> maxLinksOf raw \<and> 0 \<le> totalLinksFound rep \<and>
            totalLinksFound rep = linkTotal (sections rep)) \<and>
         emitted_within (maxLinksOf raw) (st0 u) (primaryNavEmit (maxLinksOf raw)
            (fst (primaryNavScan B u navSelectors [] p)) (st0 u)) \<and>
         (totalLinksFound st \<le> maxLinksOf raw \<longrightarrow>
            emitted_within (maxLinksOf raw) st (fst (hoverScopes B u (maxLinksOf raw) sels st p)) \<and>
            emitted_within (maxLinksOf raw) st (fst (hamburgerLoop B u (maxLinksOf raw) sels st p)) \<and>
            emitted_within (maxLinksOf raw) st (fst (footerPhase B u (maxLinksOf raw) pn st p)))"
proof -
  let ?m = "maxLinksOf raw"
  have push: "\<And>s st' lbl xs. emitted_within ?m s st' \<Longrightarrow> (True \<longrightarrow> totalLinksFound st' < ?m) \<Longrightarrow>
      xs \<noteq> [] \<Longrightarrow> distinct (map url xs) \<Longrightarrow>
      emitted_within ?m s (pushSection lbl (slice0 (?m - totalLinksFound st') xs) st')"
    by (simp add: emitted_within_push)
  have init: "emitted_within ?m (st0 u) (st0 u)"
    using assms by (intro emitted_within_refl) (simp add: st0_def)
  have run: "emitted_within ?m (st0 u) (fst (exploreTry B u ?m q))" for q
  proof (rule exploreTry_pres [where g = True and P = "emitted_within ?m (st0 u)"])
    show "emitted_within ?m (st0 u) \<lparr>pageUrl = u, totalLinksFound = 0, sections = [], errors = []\<rparr>"
      using init by (simp add: st0_eq)
    show "True \<longrightarrow> 1 \<le> ?m" using assms by simp
  qed (rule push, simp_all add: emitted_within_errors)
  have 1: "execute B u raw = Inr rep \<longrightarrow>
            totalLinksFound rep \<le> ?m \<and> 0 \<le> totalLinksFound rep \<and>
            totalLinksFound rep = linkTotal (sections rep)"
    using execute_report [of B u raw rep] run emitted_within_total by blast
  have 2: "emitted_within ?m (st0 u) (primaryNavEmit ?m (fst (primaryNavScan B u navSelectors [] p)) (st0 u))"
  proof (rule primaryNavEmit_pres [where g = True and P = "emitted_within ?m (st0 u)"])
    show "emitted_within ?m (st0 u) (st0 u)" by (rule init)
    show "totalLinksFound (st0 u) = 0" by (simp add: st0_def)
    show "True \<longrightarrow> 1 \<le> ?m" using assms by simp
    show "keyed (fst (primaryNavScan B u navSelectors [] p))"
      by (rule primaryNavScan_keyed [OF keyed_Nil])
  qed (rule push, simp_all)
  have 3: "emitted_within ?m st (fst (hoverScopes B u ?m sels st p)) \<and>
           emitted_within ?m st (fst (hamburgerLoop B u ?m sels st p)) \<and>
           emitted_within ?m st (fst (footerPhase B u ?m pn st p))"
    if le: "totalLinksFound st \<le> ?m"
  proof (intro conjI)
    have st: "emitted_within ?m st st" using le by (rule emitted_within_refl)
    show "emitted_within ?m st (fst (hoverScopes B u ?m sels st p))"
    proof (rule hoverScopes_pres [where g = True and P = "emitted_within ?m st"])
      show "emitted_within ?m st st" by (rule st)
    qed (rule push, simp_all)
    show "emitted_within ?m st (fst (hamburgerLoop B u ?m sels st p))"
    proof (rule hamburgerLoop_pres [where g = True and P = "emitted_within ?m st"])
      show "emitted_within ?m st st" by (rule st)
    qed (rule push, simp_all)
    show "emitted_within ?m st (fst (footerPhase B u ?m pn st p))"
    proof (rule footerPhase_pres [where g = True and P = "emitted_within ?m st"])
      show "emitted_within ?m st st" by (rule st)
      show "\<And>s e. emitted_within ?m st s \<Longrightarrow> emitted_within ?m st (s\<lparr>errors := errors s @ [e]\<rparr>)"
        by (rule emitted_within_errors)
    qed (rule push, simp_all)
  qed
  show ?thesis using 1 2 3 by blast
qed

theorem budget_respected_witness:
  "1 \<le> maxLinksOf (Some 3) \<and>
   execute shop home (Some 3) = Inr shopCut \<and>
   totalLinksFound shopCut \<le> maxLinksOf (Some 3) \<and> 0 \<le> totalLinksFound shopCut \<and>
   totalLinksFound shopCut = linkTotal (sections shopCut) \<and>
   totalLinksFound (st0 home) \<le> maxLinksOf (Some 3) \<and>
   emitted_within (maxLinksOf (Some 3)) (st0 home)
     (fst (footerPhase shop home (maxLinksOf (Some 3)) [] (st0 home) fx0))"
proof -
  have h1: "1 \<le> maxLinksOf (Some 3)" by (simp add: maxLinksOf_def)
  have h2: "execute shop home (Some 3) = Inr shopCut" by code_simp
  have h3: "totalLinksFound (st0 home) \<le> maxLinksOf (Some 3)"
    by (simp add: st0_def maxLinksOf_def)
  show ?thesis
    using budget_respected [OF h1, of shop home shopCut fx0 "st0 home" hoverTargetSelectors "[]"]
      h1 h2 h3
    by blast
qed

section \<open>Sections\<close>

lemma no_empty_push:
  "no_empty_section st \<Longrightarrow> totalLinksFound st < m \<Longrightarrow> xs \<noteq> [] \<Longrightarrow>
   no_empty_section (pushSection lbl (slice0 (m - totalLinksFound st) xs) st)"
  by (simp add: no_empty_section_def pushSection_def slice0_nonempty)

text \<open>
  Claim C4.  For every run with \<open>maxLinks\<close> a positive integer, every section of the
  report the tool returns holds at least one link: a phase with no link left after
  filtering and truncation to the budget emits no section.
\<close>

theorem no_empty_sections:
  assumes "1 \<le> maxLinksOf raw" and "execute B u raw = Inr rep"
  shows "no_empty_section rep"
proof -
  have "no_empty_section (fst (exploreTry B u (maxLinksOf raw) p))" for p
  proof (rule exploreTry_pres [where g = True and P = no_empty_section])
    show "no_empty_section \<lparr>pageUrl = u, totalLinksFound = 0, sections = [], errors = []\<rparr>"
      by (simp add: no_empty_section_def)
    show "True \<longrightarrow> 1 \<le> maxLinksOf raw" using assms(1) by simp
    show "\<And>st e. no_empty_section st \<Longrightarrow> no_empty_section (st\<lparr>errors := errors st @ [e]\<rparr>)"
      by (simp add: no_empty_section_def)
  qed (rule no_empty_push, simp_all)
  then show ?thesis using execute_report [OF assms(2)] by auto
qed

theorem no_empty_sections_witness:
  "1 \<le> maxLinksOf None \<and> execute shop home None = Inr shopFull \<and> no_empty_section shopFull"
proof -
  have h1: "1 \<le> maxLinksOf None" by (simp add: maxLinksOf_def DEFAULT_MAX_LINKS_def)
  have h2: "execute shop home None = Inr shopFull" by code_simp
  show ?thesis using no_empty_sections [OF h1 h2] h1 h2 by simp
qed

lemma distinct_urls_push:
  "distinct_urls st \<and> totalLinksFound st = linkTotal (sections st) \<Longrightarrow> distinct (map url xs) \<Longrightarrow>
   distinct_urls (pushSection lbl (slice0 n xs) st) \<and>
   totalLinksFound (pushSection lbl (slice0 n xs) st) = linkTotal (sections (pushSection lbl (slice0 n xs) st))"
  by (simp add: distinct_urls_def pushSection_def distinct_slice0 linkTotal_def)

text \<open>
  Claim C9.  In every report the tool returns, the URLs within any one section are pairwise
  distinct and \<open>totalLinksFound\<close> counts every link of every section; across sections
  there is no such exclusion but the footer's against the primary navigation: on the
  example shop the URL \<^verbatim>\<open>https://example.com/about\<close> is in the section of the hovered
  item and again in the footer section, and both occurrences are counted, five links in
  all.
\<close>

theorem duplicates_across_sections:
  "(execute B u raw = Inr rep \<longrightarrow>
      distinct_urls rep \<and> totalLinksFound rep = linkTotal (sections rep)) \<and>
   execute shop home None = Inr shopFull \<and>
   map label (sections shopFull) = [''Primary Nav'', ''Dropdown: Products'', ''Footer''] \<and>
   map (\<lambda>s. map url (links s)) (sections shopFull) =
     [[''https://example.com/pricing'', ''https://example.com/docs''],
      [''https://example.com/about''],
      [''https://example.com/about'', ''https://example.com/careers'']] \<and>
   shared_urls shopFull = [''https://example.com/about''] \<and>
   totalLinksFound shopFull = 5"
proof -
  let ?P = "\<lambda>st. distinct_urls st \<and> totalLinksFound st = linkTotal (sections st)"
  have "?P (fst (exploreTry B u (maxLinksOf raw) p))" for p
  proof (rule exploreTry_pres [where g = False and P = ?P])
    show "?P \<lparr>pageUrl = u, totalLinksFound = 0, sections = [], errors = []\<rparr>"
      by (simp add: distinct_urls_def linkTotal_def)
    show "False \<longrightarrow> 1 \<le> maxLinksOf raw" by simp
    show "\<And>st e. ?P st \<Longrightarrow> ?P (st\<lparr>errors := errors st @ [e]\<rparr>)"
      by (simp add: distinct_urls_def)
  qed (rule distinct_urls_push, simp_all)
  then have 1: "execute B u raw = Inr rep \<longrightarrow>
      distinct_urls rep \<and> totalLinksFound rep = linkTotal (sections rep)"
    using execute_report [of B u raw rep] by auto
  have 2: "execute shop home None = Inr shopFull" by code_simp
  have 3: "map label (sections shopFull) = [''Primary Nav'', ''Dropdown: Products'', ''Footer'']"
    by code_simp
  have 4: "map (\<lambda>s. map url (links s)) (sections shopFull) =
     [[''https://example.com/pricing'', ''https://example.com/docs''],
      [''https://example.com/about''],
      [''https://example.com/about'', ''https://example.com/careers'']]"
    by code_simp
  have 5: "shared_urls shopFull = [''https://example.com/about'']" by code_simp
  have 6: "totalLinksFound shopFull = 5" by code_simp
  show ?thesis using 1 2 3 4 5 6 by blast
qed

theorem duplicates_across_sections_witness:
  "execute shop home (Some 3) = Inr shopCut \<and> distinct_urls shopCut \<and>
   totalLinksFound shopCut = linkTotal (sections shopCut)"
proof -
  have h: "execute shop home (Some 3) = Inr shopCut" by code_simp
  show ?thesis using duplicates_across_sections [of shop home "Some 3" shopCut] h by blast
qed

section \<open>An exhausted budget\<close>

lemma hoverItems_exhausted:
  "m \<le> totalLinksFound st \<Longrightarrow> hoverItems B u m sel ixs st p = (st, p)"
  by (cases ixs) simp_all

lemma hoverScopes_exhausted:
  "m \<le> totalLinksFound st \<Longrightarrow> fst (hoverScopes B u m sels st p) = st"
proof (induction sels arbitrary: p)
  case Nil
  then show ?case by simp
next
  case (Cons sel sels)
  then show ?case
    by (simp add: hoverItems_exhausted case_prod_beta split: sum.split)
qed

lemma hamburgerLoop_exhausted:
  "m \<le> totalLinksFound st \<Longrightarrow> hamburgerLoop B u m sels st p = (st, p)"
  by (cases sels) simp_all

lemma footerPhase_exhausted:
  "m \<le> totalLinksFound st \<Longrightarrow> footerPhase B u m pn st p = (st, p)"
  by (simp add: footerPhase_def)

text \<open>
  Claim C10.  Called with \<open>maxLinks = 0\<close> on a page that loads and whose navigation
  scopes yield at least one qualifying link, the tool returns a report whose only section
  is labelled \<open>Primary Nav\<close> and has an empty list of links, with \<open>totalLinksFound = 0\<close>:
  without \<open>maxLinks \<ge> 1\<close> a section can be empty.
\<close>

theorem zero_budget_empty_section:
  assumes "getPage B = Inr p0"
    and "goto B u p0 = (Inr status, p1)"
    and "waitForTimeout B 2000 p1 = (Inr (), p2)"
    and "collectLinks B u (dismissCookieBanners B p2) = (Inr baseline, p3)"
    and "fst (primaryNavScan B u navSelectors [] p3) \<noteq> []"
    and "\<And>p. fst (closePage B p) = Inr ()"
  shows "execute B u (Some 0) =
           Inr \<lparr>pageUrl = u, totalLinksFound = 0,
                sections = [\<lparr>label = ''Primary Nav'', links = []\<rparr>], errors = []\<rparr>"
proof -
  let ?pn = "fst (primaryNavScan B u navSelectors [] p3)"
  let ?st1 = "\<lparr>pageUrl = u, totalLinksFound = 0,
                sections = [\<lparr>label = ''Primary Nav'', links = []\<rparr>], errors = []\<rparr>"
  have emit: "primaryNavEmit 0 ?pn \<lparr>pageUrl = u, totalLinksFound = 0, sections = [], errors = []\<rparr> = ?st1"
    using assms(5) by (simp add: primaryNavEmit_def pushSection_def slice0_def)
  have ex: "0 \<le> totalLinksFound ?st1" by simp
  have "fst (exploreTry B u 0 p0) = ?st1"
    using assms(2-4) emit
    by (simp add: exploreTry_def case_prod_beta hoverScopes_exhausted [OF ex]
        hamburgerLoop_exhausted [OF ex] footerPhase_exhausted [OF ex])
  then show ?thesis
    using assms(1) assms(6) [of "snd (exploreTry B u 0 p0)"]
    by (simp add: execute_def maxLinksOf_def case_prod_beta)
qed

theorem zero_budget_empty_section_witness:
  "getPage shop = Inr fx0 \<and>
   goto shop home fx0 = (Inr 200, fx0) \<and>
   waitForTimeout shop 2000 fx0 = (Inr (), fx0) \<and>
   fst (collectLinks shop home (dismissCookieBanners shop fx0)) =
     Inr [(''https://example.com/pricing'', \<lparr>url = ''https://example.com/pricing'', text' = ''Pricing''\<rparr>),
          (''https://example.com/docs'', \<lparr>url = ''https://example.com/docs'', text' = ''Docs''\<rparr>)] \<and>
   fst (primaryNavScan shop home navSelectors [] fx0) \<noteq> [] \<and>
   (\<forall>p. fst (closePage shop p) = Inr ()) \<and>
   execute shop home (Some 0) =
     Inr \<lparr>pageUrl = home, totalLinksFound = 0,
          sections = [\<lparr>label = ''Primary Nav'', links = []\<rparr>], errors = []\<rparr>"
proof -
  have 1: "getPage shop = Inr fx0" by code_simp
  have 2: "goto shop home fx0 = (Inr 200, fx0)" by code_simp
  have 3: "waitForTimeout shop 2000 fx0 = (Inr (), fx0)" by code_simp
  have 4: "collectLinks shop home (dismissCookieBanners shop fx0) =
     (Inr [(''https://example.com/pricing'', \<lparr>url = ''https://example.com/pricing'', text' = ''Pricing''\<rparr>),
          (''https://example.com/docs'', \<lparr>url = ''https://example.com/docs'', text' = ''Docs''\<rparr>)], fx0)"
    by code_simp
  have 5: "fst (primaryNavScan shop home navSelectors [] fx0) \<noteq> []" by code_simp
  have 6: "fst (closePage shop p) = Inr ()" for p by (simp add: shop_def scripted_def)
  show ?thesis
    using zero_budget_empty_section [OF 1 2 3 4 5 6] 1 2 3 4 5 6 by simp
qed

section \<open>What reaches the caller\<close>

text \<open>
  Claim C7, amended.  The caller receives a report exactly when \<^verbatim>\<open>getPage()\<close> yields a
  page and \<^verbatim>\<open>page.close()\<close> does not throw at the end; a throw of either propagates
  out of the tool, and nothing else does.  The report is then the one built by the
  \<^verbatim>\<open>try\<close> block or its \<^verbatim>\<open>catch\<close>, and whatever fails inside a phase, the phase
  only appends to the sections accumulated before it.
\<close>

theorem report_or_propagated_fault:
  "((\<exists>rep. execute B u raw = Inr rep) \<longleftrightarrow>
      (\<exists>p. getPage B = Inr p \<and>
           fst (closePage B (snd (exploreTry B u (maxLinksOf raw) p))) = Inr ())) \<and>
   (getPage B = Inr p \<longrightarrow> execute B u raw = Inr rep \<longrightarrow>
      rep = fst (exploreTry B u (maxLinksOf raw) p)) \<and>
   prefix (sections st) (sections (fst (hoverScopes B u m sels st q))) \<and>
   prefix (sections st) (sections (fst (hamburgerLoop B u m sels st q))) \<and>
   prefix (sections st) (sections (fst (footerPhase B u m pn st q)))"
proof -
  let ?P = "\<lambda>st'. prefix (sections st) (sections st')"
  have push: "\<And>s lbl xs. ?P s \<Longrightarrow> ?P (pushSection lbl (slice0 (m - totalLinksFound s) xs) s)"
    by (simp add: pushSection_def)
  have 1: "?P (fst (hoverScopes B u m sels st q))"
    by (rule hoverScopes_pres [where g = False and P = ?P]) (rule push, simp_all)
  have 2: "?P (fst (hamburgerLoop B u m sels st q))"
    by (rule hamburgerLoop_pres [where g = False and P = ?P]) (rule push, simp_all)
  have 3: "?P (fst (footerPhase B u m pn st q))"
    by (rule footerPhase_pres [where g = False and P = ?P]) (rule push, simp_all)
  have 4: "(\<exists>rep. execute B u raw = Inr rep) \<longleftrightarrow>
      (\<exists>p. getPage B = Inr p \<and>
           fst (closePage B (snd (exploreTry B u (maxLinksOf raw) p))) = Inr ())"
    by (cases "getPage B") (auto simp: execute_def Let_def case_prod_beta split: sum.splits)
  have 5: "getPage B = Inr p \<longrightarrow> execute B u raw = Inr rep \<longrightarrow>
      rep = fst (exploreTry B u (maxLinksOf raw) p)"
    by (auto simp: execute_def Let_def case_prod_beta split: sum.splits)
  show ?thesis using 1 2 3 4 5 by blast
qed

theorem report_or_propagated_fault_witness:
  "getPage shop = Inr fx0 \<and>
   fst (closePage shop (snd (exploreTry shop home (maxLinksOf None) fx0))) = Inr () \<and>
   execute shop home None = Inr shopFull \<and>
   shopFull = fst (exploreTry shop home (maxLinksOf None) fx0)"
proof -
  have 1: "getPage shop = Inr fx0" by code_simp
  have 2: "fst (closePage shop (snd (exploreTry shop home (maxLinksOf None) fx0))) = Inr ()"
    by (simp add: shop_def scripted_def)
  have "\<exists>rep. execute shop home None = Inr rep"
    using report_or_propagated_fault [of shop home None] 1 2 by blast
  then obtain rep where r: "execute shop home None = Inr rep" ..
  have 3: "execute shop home None = Inr shopFull" by code_simp
  have "shopFull = fst (exploreTry shop home (maxLinksOf None) fx0)"
    using report_or_propagated_fault [of shop home None fx0 shopFull] 1 3 by blast
  then show ?thesis using 1 2 3 by simp
qed

theorem getPage_fault_counterexample:
  "getPage shopNoBrowser = Inl ''connect ECONNREFUSED'' \<and>
   execute shopNoBrowser home None = Inl ''connect ECONNREFUSED''"
  by code_simp

section \<open>The footer scan\<close>

lemma addRawFooter_append:
  "addRawFooter R base pn (xs @ ys) m = addRawFooter R base pn ys (addRawFooter R base pn xs m)"
  by (induction xs arbitrary: m) (auto split: option.splits)

lemma footerScan_anchors:
  "footerScan B u pn sels m p =
     (addRawFooter (resolveURL B) u pn (fst (footerAnchors B sels p)) m,
      snd (footerAnchors B sels p))"
proof (induction sels arbitrary: m p)
  case Nil
  then show ?case by simp
next
  case (Cons sel sels)
  then show ?case
    by (simp add: case_prod_beta addRawFooter_append split: sum.split)
qed

lemma values_addRawFooter:
  "values_of (addRawFooter R base pn raw []) = footer_spec R base pn raw"
  by (simp add: addRawFooter_clearjunk footer_spec_def values_of_def has_def)

lemma footer_spec_not_primary:
  "list_all (\<lambda>l. \<not> has pn (url l)) (footer_spec R base pn raw)"
proof -
  have "\<not> has pn (url (snd kv))"
    if "kv \<in> set (AList.clearjunk (filter (\<lambda>kv. \<not> has pn (fst kv)) (candidates R base raw)))" for kv
  proof -
    from that have "kv \<in> set (filter (\<lambda>kv. \<not> has pn (fst kv)) (candidates R base raw))"
      using set_clearjunk_subset by blast
    then have "\<not> has pn (fst kv)" and "kv \<in> set (candidates R base raw)" by simp_all
    then show ?thesis using candidates_built [of kv R base raw] by auto
  qed
  then show ?thesis by (simp add: footer_spec_def list_all_iff)
qed

text \<open>
  Claim C6.  The footer scan does nothing at all when the budget is exhausted; when it runs
  (the scroll and the wait after it going through), the section it emits is labelled
  \<open>Footer\<close> and holds exactly the footer-scoped links whose resolved URL the primary
  navigation scan did not capture, deduplicated, cut to the remaining budget, and no
  section is emitted when there is no such link.  On the example shop, whose footer has four
  links of which two repeat the navigation bar, the footer section holds exactly the other
  two.
\<close>

theorem footer_scan_correct:
  "(m \<le> totalLinksFound st \<longrightarrow> footerPhase B u m pn st p = (st, p)) \<and>
   (totalLinksFound st < m \<longrightarrow> scrollToBottom B p = (Inr (), p1) \<longrightarrow>
    waitForTimeout B 1500 p1 = (Inr (), p2) \<longrightarrow>
      fst (footerPhase B u m pn st p) =
        (let fl = footer_spec (resolveURL B) u pn (fst (footerAnchors B footerSelectors p2))
         in if fl = [] then st
            else pushSection ''Footer'' (take (nat (m - totalLinksFound st)) fl) st) \<and>
      list_all (\<lambda>l. \<not> has pn (url l))
        (footer_spec (resolveURL B) u pn (fst (footerAnchors B footerSelectors p2))))"
proof (intro conjI impI)
  assume "m \<le> totalLinksFound st"
  then show "footerPhase B u m pn st p = (st, p)" by (rule footerPhase_exhausted)
next
  assume lt: "totalLinksFound st < m"
    and scroll: "scrollToBottom B p = (Inr (), p1)"
    and wait: "waitForTimeout B 1500 p1 = (Inr (), p2)"
  let ?raw = "fst (footerAnchors B footerSelectors p2)"
  let ?fm = "addRawFooter (resolveURL B) u pn ?raw []"
  have v: "values_of ?fm = footer_spec (resolveURL B) u pn ?raw" by (rule values_addRawFooter)
  have e: "(?fm = []) = (footer_spec (resolveURL B) u pn ?raw = [])"
    using arg_cong [OF v, of length] by (simp add: values_of_def flip: length_0_conv)
  have s: "slice0 (m - totalLinksFound st) xs = take (nat (m - totalLinksFound st)) xs" for xs :: "LinkInfo list"
    using lt by (simp add: slice0_def)
  show "fst (footerPhase B u m pn st p) =
        (let fl = footer_spec (resolveURL B) u pn ?raw
         in if fl = [] then st
            else pushSection ''Footer'' (take (nat (m - totalLinksFound st)) fl) st)"
    using lt scroll wait e
    by (simp add: footerPhase_def footerScan_anchors s v Let_def)
  show "list_all (\<lambda>l. \<not> has pn (url l)) (footer_spec (resolveURL B) u pn ?raw)"
    by (rule footer_spec_not_primary)
qed

theorem footer_scan_correct_witness:
  "totalLinksFound (st0 home) < 50 \<and>
   scrollToBottom shop fx0 = (Inr (), fx0\<lparr>scrolled := True\<rparr>) \<and>
   waitForTimeout shop 1500 (fx0\<lparr>scrolled := True\<rparr>) = (Inr (), fx0\<lparr>scrolled := True\<rparr>) \<and>
   fst (footerAnchors shop footerSelectors (fx0\<lparr>scrolled := True\<rparr>)) = shopFooter \<and>
   map fst (fst (primaryNavScan shop home navSelectors [] fx0)) =
     [''https://example.com/pricing'', ''https://example.com/docs''] \<and>
   fst (footerPhase shop home 50 (fst (primaryNavScan shop home navSelectors [] fx0)) (st0 home) fx0) =
     \<lparr>pageUrl = home, totalLinksFound = 2,
      sections =
        [\<lparr>label = ''Footer'',
           links = [\<lparr>url = ''https://example.com/about'', text' = ''About''\<rparr>,
                    \<lparr>url = ''https://example.com/careers'', text' = ''Careers''\<rparr>]\<rparr>],
      errors = []\<rparr>"
proof -
  let ?pn = "fst (primaryNavScan shop home navSelectors [] fx0)"
  let ?p = "fx0\<lparr>scrolled := True\<rparr>"
  have 1: "totalLinksFound (st0 home) < 50" by (simp add: st0_def)
  have 2: "scrollToBottom shop fx0 = (Inr (), ?p)" by code_simp
  have 3: "waitForTimeout shop 1500 ?p = (Inr (), ?p)" by code_simp
  have 4: "fst (footerAnchors shop footerSelectors ?p) = shopFooter" by code_simp
  have 5: "map fst ?pn = [''https://example.com/pricing'', ''https://example.com/docs'']"
    by code_simp
  have 6: "(let fl = footer_spec (resolveURL shop) home ?pn (fst (footerAnchors shop footerSelectors ?p))
         in if fl = [] then st0 home
            else pushSection ''Footer'' (take (nat (50 - totalLinksFound (st0 home))) fl) (st0 home)) =
     \<lparr>pageUrl = home, totalLinksFound = 2,
      sections =
        [\<lparr>label = ''Footer'',
           links = [\<lparr>url = ''https://example.com/about'', text' = ''About''\<rparr>,
                    \<lparr>url = ''https://example.com/careers'', text' = ''Careers''\<rparr>]\<rparr>],
      errors = []\<rparr>"
    by code_simp
  show ?thesis
    using footer_scan_correct [of 50 "st0 home" shop home ?pn fx0 ?p ?p] 1 2 3 4 5 6
    by simp
qed

section \<open>The menu toggle\<close>

text \<open>
  Claim C8, amended.  While the budget is not exhausted, the phase goes through the toggle
  selectors in order, looking at the first match of each.  A selector whose first match is
  not visible, or for which the visibility test, the snapshot before the click or the click
  itself throws, is passed over and the next selector is tried.  At the first selector for
  which the click, the wait and the snapshot after the click all go through, the phase
  emits the revealed links (if any), attempts one more click on the same element, ignoring
  what that click or the wait after it throws, and stops: no later selector is tried.
\<close>

theorem hamburger_stops_after_engagement:
  assumes "totalLinksFound st < m"
  shows "(fst (firstIsVisible B sel 1000 p) \<noteq> Inr True \<longrightarrow>
            hamburgerLoop B u m (sel # sels) st p =
              hamburgerLoop B u m sels st (snd (firstIsVisible B sel 1000 p))) \<and>
         (firstIsVisible B sel 1000 p = (Inr True, p1) \<longrightarrow>
          collectLinks B u p1 = (Inl e, p2) \<longrightarrow>
            hamburgerLoop B u m (sel # sels) st p = hamburgerLoop B u m sels st p2) \<and>
         (firstIsVisible B sel 1000 p = (Inr True, p1) \<longrightarrow>
          collectLinks B u p1 = (Inr beforeClick, p2) \<longrightarrow>
          firstClick B sel 3000 p2 = (Inl e, p3) \<longrightarrow>
            hamburgerLoop B u m (sel # sels) st p = hamburgerLoop B u m sels st p3) \<and>
         (firstIsVisible B sel 1000 p = (Inr True, p1) \<longrightarrow>
          collectLinks B u p1 = (Inr beforeClick, p2) \<longrightarrow>
          firstClick B sel 3000 p2 = (Inr (), p3) \<longrightarrow>
          waitForTimeout B 1500 p3 = (Inr (), p4) \<longrightarrow>
          collectLinks B u p4 = (Inr afterClick, p5) \<longrightarrow>
            hamburgerLoop B u m (sel # sels) st p =
              (if diffLinks beforeClick afterClick = [] then st
               else pushSection ''Mobile/Hamburger Menu''
                      (slice0 (m - totalLinksFound st) (diffLinks beforeClick afterClick)) st,
               closeMenu B sel p5) \<and>
            hamburgerLoop B u m (sel # sels) st p = hamburgerLoop B u m [sel] st p)"
proof (intro conjI impI)
  assume "fst (firstIsVisible B sel 1000 p) \<noteq> Inr True"
  then show "hamburgerLoop B u m (sel # sels) st p =
      hamburgerLoop B u m sels st (snd (firstIsVisible B sel 1000 p))"
    using assms by (simp add: case_prod_beta split: sum.split bool.split)
next
  assume "firstIsVisible B sel 1000 p = (Inr True, p1)" "collectLinks B u p1 = (Inl e, p2)"
  then show "hamburgerLoop B u m (sel # sels) st p = hamburgerLoop B u m sels st p2"
    using assms by simp
next
  assume "firstIsVisible B sel 1000 p = (Inr True, p1)"
    "collectLinks B u p1 = (Inr beforeClick, p2)" "firstClick B sel 3000 p2 = (Inl e, p3)"
  then show "hamburgerLoop B u m (sel # sels) st p = hamburgerLoop B u m sels st p3"
    using assms by simp
next
  assume *: "firstIsVisible B sel 1000 p = (Inr True, p1)"
    "collectLinks B u p1 = (Inr beforeClick, p2)" "firstClick B sel 3000 p2 = (Inr (), p3)"
    "waitForTimeout B 1500 p3 = (Inr (), p4)" "collectLinks B u p4 = (Inr afterClick, p5)"
  show r: "hamburgerLoop B u m (sel # sels) st p =
      (if diffLinks beforeClick afterClick = [] then st
       else pushSection ''Mobile/Hamburger Menu''
              (slice0 (m - totalLinksFound st) (diffLinks beforeClick afterClick)) st,
       closeMenu B sel p5)" for sels
    using assms * by (simp add: Let_def)
  show "hamburgerLoop B u m (sel # sels) st p = hamburgerLoop B u m [sel] st p"
    by (simp only: r)
qed

theorem hamburger_stops_after_engagement_witness:
  "totalLinksFound (st0 home) < 50 \<and>
   firstIsVisible toggles toggle1 1000 fx0 = (Inr True, fx0) \<and>
   fst (collectLinks toggles home fx0) =
     Inr [(''https://example.com/pricing'', \<lparr>url = ''https://example.com/pricing'', text' = ''Pricing''\<rparr>)] \<and>
   firstClick toggles toggle1 3000 fx0 = (Inr (), fx0\<lparr>clicks := [toggle1]\<rparr>) \<and>
   waitForTimeout toggles 1500 (fx0\<lparr>clicks := [toggle1]\<rparr>) = (Inr (), fx0\<lparr>clicks := [toggle1]\<rparr>) \<and>
   fst (collectLinks toggles home (fx0\<lparr>clicks := [toggle1]\<rparr>)) =
     Inr [(''https://example.com/pricing'', \<lparr>url = ''https://example.com/pricing'', text' = ''Pricing''\<rparr>)] \<and>
   hamburgerLoop toggles home 50 hamburgerSelectors (st0 home) fx0 =
     (st0 home, fx0\<lparr>clicks := [toggle1, toggle1]\<rparr>)"
proof -
  let ?b = "[(''https://example.com/pricing'', \<lparr>url = ''https://example.com/pricing'', text' = ''Pricing''\<rparr>)]"
  let ?p = "fx0\<lparr>clicks := [toggle1]\<rparr>"
  have 0: "totalLinksFound (st0 home) < 50" by (simp add: st0_def)
  have 1: "firstIsVisible toggles toggle1 1000 fx0 = (Inr True, fx0)" by code_simp
  have 2: "collectLinks toggles home fx0 = (Inr ?b, fx0)" by code_simp
  have 3: "firstClick toggles toggle1 3000 fx0 = (Inr (), ?p)" by code_simp
  have 4: "waitForTimeout toggles 1500 ?p = (Inr (), ?p)" by code_simp
  have 5: "collectLinks toggles home ?p = (Inr ?b, ?p)" by code_simp
  have 6: "diffLinks ?b ?b = []" by code_simp
  have 7: "closeMenu toggles toggle1 ?p = fx0\<lparr>clicks := [toggle1, toggle1]\<rparr>" by code_simp
  have 8: "hamburgerSelectors = toggle1 # tl hamburgerSelectors" by code_simp
  have "hamburgerLoop toggles home 50 (toggle1 # tl hamburgerSelectors) (st0 home) fx0 =
     (st0 home, fx0\<lparr>clicks := [toggle1, toggle1]\<rparr>)"
    using hamburger_stops_after_engagement [OF 0, of toggles toggle1 fx0 home "tl hamburgerSelectors"
        fx0 _ fx0 ?b ?p ?p ?b ?p] 1 2 3 4 5 6 7
    by simp
  then show ?thesis using 0 1 2 3 4 5 8 by simp
qed

theorem later_toggle_tried_counterexample:
  "hamburgerSelectors ! 0 = toggle1 \<and> hamburgerSelectors ! 3 = toggle2 \<and>
   fst (firstIsVisible stuck toggle1 1000 fx0) = Inr True \<and>
   fst (firstClick stuck toggle1 3000 fx0) = Inl ''Timeout 3000ms exceeded'' \<and>
   clicks (snd (hamburgerLoop stuck home 50 hamburgerSelectors (st0 home) fx0)) = [toggle2, toggle2] \<and>
   map label (sections (fst (hamburgerLoop stuck home 50 hamburgerSelectors (st0 home) fx0))) =
     [''Mobile/Hamburger Menu'']"
  by code_simp

text \<open>
  When the click on a toggle goes through and the snapshot after it throws (the click
  started a navigation), the loop goes on as well: on the page \<open>leaving\<close> the first
  toggle is clicked and never clicked again, and the second toggle is clicked open and
  closed.
\<close>

lemma two_toggles_opened:
  "clicks (snd (hamburgerLoop leaving home 50 hamburgerSelectors (st0 home) fx0)) =
     [toggle1, toggle2, toggle2]"
  by code_simp

end
